theory Spec2Isabelle
  imports Main
begin

section \<open>JavaScript strings and numbers\<close>

text \<open>
  A JavaScript string is modelled as a \<^typ>\<open>string\<close>, one \<^typ>\<open>char\<close> per code unit; the
  alphabet of the model is the code points below 256. \<open>undefined\<close> is \<open>None\<close> of an
  option type. The line separator \<open>os.EOL\<close> and the field delimiter are single characters
  (POSIX), so \<open>String.prototype.split\<close> is modelled for a one-character separator.
\<close>

definition is_ws :: "char \<Rightarrow> bool" where
  \<comment> \<open>WhiteSpace and LineTerminator code points below 256, as removed by \<open>trim\<close>.\<close>
  "is_ws c \<longleftrightarrow>
     c \<in> set [CHR 0x09, CHR 0x0A, CHR 0x0B, CHR 0x0C, CHR 0x0D, CHR 0x20, CHR 0xA0]"

definition trim :: "string \<Rightarrow> string" where
  "trim s = rev (dropWhile is_ws (rev (dropWhile is_ws s)))"

fun split_on :: "char \<Rightarrow> string \<Rightarrow> string list" where
  "split_on sep [] = [[]]"
| "split_on sep (c # cs) =
     (if c = sep then [] # split_on sep cs
      else (case split_on sep cs of
              [] \<Rightarrow> [[c]]
            | w # ws \<Rightarrow> (c # w) # ws))"

declare split_on.simps [simp del]

fun indexOf :: "'a list \<Rightarrow> 'a \<Rightarrow> int" where
  "indexOf [] x = - 1"
| "indexOf (y # ys) x =
     (if y = x then 0
      else (let i = indexOf ys x in if i = - 1 then - 1 else i + 1))"

definition at :: "'a list \<Rightarrow> int \<Rightarrow> 'a option" where
  \<comment> \<open>\<open>values[i]\<close>: \<open>undefined\<close> outside the array.\<close>
  "at xs i = (if 0 \<le> i \<and> i < int (length xs) then Some (xs ! nat i) else None)"

definition str_includes :: "string \<Rightarrow> char \<Rightarrow> bool" where
  "str_includes s c \<longleftrightarrow> c \<in> set s"

definition toUpperCase :: "string \<Rightarrow> string" where
  \<comment> \<open>Exact on ASCII; other code points are left as they are.\<close>
  "toUpperCase s =
     map (\<lambda>c. case map_of (zip ''abcdefghijklmnopqrstuvwxyz'' ''ABCDEFGHIJKLMNOPQRSTUVWXYZ'') c of
                None \<Rightarrow> c
              | Some u \<Rightarrow> u) s"

fun join :: "string \<Rightarrow> string list \<Rightarrow> string" where
  "join sep [] = []"
| "join sep [x] = x"
| "join sep (x # y # ys) = x @ sep @ join sep (y # ys)"

definition is_digit :: "char \<Rightarrow> bool" where
  "is_digit c \<longleftrightarrow> c \<in> set ''0123456789''"

definition digit_val :: "char \<Rightarrow> nat" where
  "digit_val c = (of_char c :: nat) - 48"

definition digits_val :: "string \<Rightarrow> nat" where
  "digits_val ds = foldl (\<lambda>n c. 10 * n + digit_val c) 0 ds"

text \<open>
  A JavaScript number that comes out of \<open>parseInt\<close> is an integer or \<open>NaN\<close>; it is an
  \<^typ>\<open>int option\<close> with \<open>None\<close> for \<open>NaN\<close>. The model is exact up to \<open>2^53\<close>,
  where JavaScript starts to round.
\<close>

definition parseInt :: "string \<Rightarrow> int option" where
  \<comment> \<open>\<open>parseInt(s, 10)\<close>: leading white space, an optional sign, the longest digit prefix.\<close>
  "parseInt s =
     (let t = dropWhile is_ws s;
          neg = (case t of [] \<Rightarrow> False | c # r \<Rightarrow> c = CHR ''-'');
          u = (case t of [] \<Rightarrow> [] | c # r \<Rightarrow> if c = CHR ''-'' \<or> c = CHR ''+'' then r else t);
          ds = takeWhile is_digit u
      in if ds = [] then None
         else Some (if neg then - int (digits_val ds) else int (digits_val ds)))"

fun string_of_nat :: "nat \<Rightarrow> string" where
  "string_of_nat n =
     (if n < 10 then [char_of (48 + n)]
      else string_of_nat (n div 10) @ [char_of (48 + n mod 10)])"

declare string_of_nat.simps [simp del]

definition number_toString :: "int \<Rightarrow> string" where
  "number_toString n =
     (if n < 0 then CHR ''-'' # string_of_nat (nat (- n)) else string_of_nat (nat n))"

section \<open>Stats (src/stats.mjs)\<close>

record Stats =
  processed :: nat
  skipped :: nat

definition total :: "Stats \<Rightarrow> nat" where
  "total s = processed s + skipped s"

definition new_Stats :: Stats where
  "new_Stats = \<lparr>processed = 0, skipped = 0\<rparr>"

section \<open>The file system\<close>

text \<open>
  The file system maps a path to the content of the file there. \<open>faults\<close> scripts the
  outcome of the successive \<open>fs.appendFile\<close> calls of a run: \<open>True\<close> means that call
  is rejected (the sink is unwritable at that moment); past the end of the script every
  call succeeds. The header write and \<open>unlink\<close> of an existing file are taken to succeed.
\<close>

record fs_state =
  files :: "string \<Rightarrow> string option"
  faults :: "bool list"

datatype error = ENOENT | EIO | MalformedHeader | TypeError

definition readFile :: "string \<Rightarrow> fs_state \<Rightarrow> error + string" where
  "readFile path fs = (case files fs path of None \<Rightarrow> Inl ENOENT | Some s \<Rightarrow> Inr s)"

definition writeFile :: "string \<Rightarrow> string \<Rightarrow> fs_state \<Rightarrow> fs_state" where
  "writeFile path data fs = fs\<lparr>files := (files fs)(path \<mapsto> data)\<rparr>"

definition append_data :: "string \<Rightarrow> string \<Rightarrow> fs_state \<Rightarrow> fs_state" where
  \<comment> \<open>A successful append; the file is created when it does not exist.\<close>
  "append_data path data fs =
     fs\<lparr>files := (files fs)(path \<mapsto> (case files fs path of None \<Rightarrow> data | Some s \<Rightarrow> s @ data))\<rparr>"

definition appendFile :: "string \<Rightarrow> string \<Rightarrow> fs_state \<Rightarrow> (error + unit) \<times> fs_state" where
  "appendFile path data fs =
     (case faults fs of
        [] \<Rightarrow> (Inr (), append_data path data fs)
      | f # fl \<Rightarrow>
          (if f then (Inl EIO, fs\<lparr>faults := fl\<rparr>)
           else (Inr (), append_data path data (fs\<lparr>faults := fl\<rparr>))))"

definition unlink :: "string \<Rightarrow> fs_state \<Rightarrow> error + fs_state" where
  "unlink path fs =
     (case files fs path of
        None \<Rightarrow> Inl ENOENT
      | Some s \<Rightarrow> Inr (fs\<lparr>files := (files fs)(path := None)\<rparr>))"

section \<open>CsvParser\<close>

definition EOL :: char where
  "EOL = CHR 0x0A"

definition USER_HEADERS :: "string list" where
  "USER_HEADERS = [''name'', ''email'', ''age'']"

record CsvParser =
  inputFilePath :: string
  outputFilePath :: string
  nameIndex :: int
  emailIndex :: int
  ageIndex :: int

text \<open>
  The constructor. \<open>path.dirname\<close> and \<open>path.join\<close> belong to Node, not to this
  repository, and are parameters. The operator \<open>||\<close> takes the default when the argument
  is \<open>undefined\<close> or the empty string.
\<close>

definition new_CsvParser ::
  "(string \<Rightarrow> string) \<Rightarrow> (string \<Rightarrow> string \<Rightarrow> string) \<Rightarrow> string \<Rightarrow> string option \<Rightarrow> CsvParser" where
  "new_CsvParser dirname path_join inputFile outputFile =
     \<lparr>inputFilePath = inputFile,
      outputFilePath =
        (case outputFile of
           None \<Rightarrow> path_join (dirname inputFile) ''output.csv''
         | Some out \<Rightarrow> if out = [] then path_join (dirname inputFile) ''output.csv'' else out),
      nameIndex = - 1,
      emailIndex = - 1,
      ageIndex = - 1\<rparr>"

definition processUser :: "string \<Rightarrow> string \<Rightarrow> int option \<Rightarrow> string option" where
  "processUser name email age =
     (if \<not> str_includes email (CHR ''@'') then None
      else (case age of
              None \<Rightarrow> None
            | Some a \<Rightarrow>
                if a < 0 then None
                else Some (join '','' [toUpperCase name, email, number_toString a])))"

definition safeDelete :: "string \<Rightarrow> fs_state \<Rightarrow> fs_state" where
  \<comment> \<open>The rejection of \<open>unlink\<close> is caught (and logged unless it is ENOENT).\<close>
  "safeDelete filePath fs = (case unlink filePath fs of Inl e \<Rightarrow> fs | Inr fs' \<Rightarrow> fs')"

definition processHeaders :: "CsvParser \<Rightarrow> string option \<Rightarrow> error + CsvParser" where
  \<comment> \<open>\<open>line.split\<close> on \<open>undefined\<close> throws a TypeError.\<close>
  "processHeaders p line =
     (case line of
        None \<Rightarrow> Inl TypeError
      | Some l \<Rightarrow>
          (let headers = split_on (CHR '','') l;
               p' = p\<lparr>nameIndex := indexOf headers ''name'',
                      emailIndex := indexOf headers ''email'',
                      ageIndex := indexOf headers ''age''\<rparr>
           in if nameIndex p' = - 1 \<or> emailIndex p' = - 1 \<or> ageIndex p' = - 1
              then Inl MalformedHeader
              else Inr p'))"

definition falsy :: "string option \<Rightarrow> bool" where
  \<comment> \<open>\<open>!v\<close> for a value that is a string or \<open>undefined\<close>.\<close>
  "falsy v \<longleftrightarrow> (case v of None \<Rightarrow> True | Some s \<Rightarrow> s = [])"

definition processUsersLine ::
  "CsvParser \<Rightarrow> string \<Rightarrow> Stats \<times> fs_state \<Rightarrow> (error + unit) \<times> Stats \<times> fs_state" where
  \<comment> \<open>A line that \<open>processUser\<close> returns holds two commas, so \<open>if (processedLine)\<close> tests
      for \<open>null\<close> only.\<close>
  "processUsersLine p line sf =
     (case sf of (stats, fs) \<Rightarrow>
        if trim line = [] then (Inr (), stats, fs)
        else
          (let vals = split_on (CHR '','') line;
               name = at vals (nameIndex p);
               email = at vals (emailIndex p);
               age = at vals (ageIndex p)
           in if falsy name \<or> falsy email \<or> falsy age
              then (Inr (), stats\<lparr>skipped := skipped stats + 1\<rparr>, fs)
              else
                (case processUser (trim (the name)) (trim (the email)) (parseInt (trim (the age))) of
                   Some processedLine \<Rightarrow>
                     (case appendFile (outputFilePath p) (EOL # processedLine) fs of
                        (Inl e, fs') \<Rightarrow> (Inl e, stats, fs')
                      | (Inr u, fs') \<Rightarrow> (Inr (), stats\<lparr>processed := processed stats + 1\<rparr>, fs'))
                 | None \<Rightarrow> (Inr (), stats\<lparr>skipped := skipped stats + 1\<rparr>, fs))))"

section \<open>Reading lines\<close>

text \<open>
  \<open>readline\<close> ends a line at \<open>\n\<close>, \<open>\r\n\<close> or \<open>\r\<close> and emits what follows the last
  line ending only when it is not empty: an empty file has no line at all.
\<close>

fun readline_from :: "string \<Rightarrow> string \<Rightarrow> string list" where
  "readline_from cur [] = (if cur = [] then [] else [cur])"
| "readline_from cur (c # cs) =
     (if c = CHR 0x0A then cur # readline_from [] cs
      else if c = CHR 0x0D then
        (case cs of
           [] \<Rightarrow> cur # readline_from [] cs
         | d # ds \<Rightarrow> if d = CHR 0x0A then cur # readline_from [] ds else cur # readline_from [] cs)
      else readline_from (cur @ [c]) cs)"

declare readline_from.simps [simp del]

definition readline_lines :: "string \<Rightarrow> string list" where
  "readline_lines s = readline_from [] s"

text \<open>
  The stream is created before the header is written and is read after it. The model takes
  the content of the input at the creation, which is what the stream reads when the input
  and the output are different files; the properties that depend on the content read are
  stated for that case.
\<close>

definition getLines :: "CsvParser \<Rightarrow> fs_state \<Rightarrow> string list option" where
  \<comment> \<open>\<open>None\<close>: the stream has no file to open and its first \<open>next()\<close> rejects with ENOENT.\<close>
  "getLines p fs = map_option readline_lines (files fs (inputFilePath p))"

definition next_line :: "string list \<Rightarrow> string option \<times> string list" where
  \<comment> \<open>\<open>lines.next()\<close>, the \<open>value\<close> being \<open>undefined\<close> when the iterator is done; also the
      destructuring \<open>[headers, ...lines]\<close>.\<close>
  "next_line ls = (case ls of [] \<Rightarrow> (None, []) | l # rest \<Rightarrow> (Some l, rest))"

section \<open>The three processing methods\<close>

text \<open>
  Every method returns the stats or the error it throws, and the file system it leaves. The
  index fields of the parser are written by \<open>processHeaders\<close> before any line reads them,
  so a run does not depend on what an earlier run left there.
\<close>

definition catch_block :: "CsvParser \<Rightarrow> error \<Rightarrow> fs_state \<Rightarrow> (error + Stats) \<times> fs_state" where
  \<comment> \<open>\<open>catch (error) { await this.#safeDelete(this.outputFilePath); throw error; }\<close>\<close>
  "catch_block p e fs = (Inl e, safeDelete (outputFilePath p) fs)"

definition after_try :: "CsvParser \<Rightarrow> Stats \<Rightarrow> fs_state \<Rightarrow> (error + Stats) \<times> fs_state" where
  \<comment> \<open>\<open>if (stats.processed === 0) await this.#safeDelete(this.outputFilePath); return stats;\<close>\<close>
  "after_try p stats fs =
     (Inr stats, if processed stats = 0 then safeDelete (outputFilePath p) fs else fs)"

fun processLines ::
  "CsvParser \<Rightarrow> string list \<Rightarrow> Stats \<times> fs_state \<Rightarrow> (error + unit) \<times> Stats \<times> fs_state" where
  \<comment> \<open>\<open>for (const line of lines) await this.#processUsersLine(line, stats)\<close>\<close>
  "processLines p [] sf = (Inr (), sf)"
| "processLines p (line # lines) sf =
     (case processUsersLine p line sf of
        (Inl e, sf') \<Rightarrow> (Inl e, sf')
      | (Inr u, sf') \<Rightarrow> processLines p lines sf')"

definition processUsers :: "CsvParser \<Rightarrow> fs_state \<Rightarrow> (error + Stats) \<times> fs_state" where
  "processUsers p fs =
     (let stats = new_Stats in
      case readFile (inputFilePath p) fs of
        Inl e \<Rightarrow> catch_block p e fs
      | Inr csv \<Rightarrow>
          if trim csv = [] then (Inr stats, fs)
          else
            (let fs1 = writeFile (outputFilePath p) (join '','' USER_HEADERS) fs in
             case next_line (split_on EOL csv) of
               (headers, lines) \<Rightarrow>
                 (case processHeaders p headers of
                    Inl e \<Rightarrow> catch_block p e fs1
                  | Inr p' \<Rightarrow>
                      (case processLines p' lines (stats, fs1) of
                         (Inl e, st, fs2) \<Rightarrow> catch_block p e fs2
                       | (Inr u, st, fs2) \<Rightarrow> after_try p st fs2))))"

definition processUsersAsStream :: "CsvParser \<Rightarrow> fs_state \<Rightarrow> (error + Stats) \<times> fs_state" where
  "processUsersAsStream p fs =
     (let stats = new_Stats;
          lines = getLines p fs;
          fs1 = writeFile (outputFilePath p) (join '','' USER_HEADERS) fs
      in case lines of
           None \<Rightarrow> catch_block p ENOENT fs1
         | Some ls \<Rightarrow>
             (case next_line ls of
                (value, rest) \<Rightarrow>
                  (case processHeaders p value of
                     Inl e \<Rightarrow> catch_block p e fs1
                   | Inr p' \<Rightarrow>
                       (case processLines p' rest (stats, fs1) of
                          (Inl e, st, fs2) \<Rightarrow> catch_block p e fs2
                        | (Inr u, st, fs2) \<Rightarrow> after_try p st fs2))))"

text \<open>
  The concurrent method. A unit of work is one call of \<open>processUsersLine\<close>; its promise
  holds the outcome. The units of a batch are run in the order of their launch, which is one
  of the schedules of the program (the counters do not depend on the schedule, the order of
  the output lines does). \<open>Promise.allSettled\<close> waits for every promise it is given and
  never rejects, so the outcomes are dropped. A rejection is taken to arrive once its batch
  is awaited, when the promise has its handler, as it does for a line at the end of the
  input. A unit that rejects earlier, while the loop still awaits the line source, has no
  handler yet: Node reports an unhandled rejection and ends the process, so that the method
  neither returns nor throws. That schedule is outside the model, and what is proved of a
  run with a rejected append is proved of the runs in which the method comes back. The loop
  also records what it does: \<open>Launch\<close>
  for a unit pushed to \<open>promises\<close>, \<open>AllSettled n\<close> for an awaited
  \<open>Promise.allSettled\<close> of \<open>n\<close> promises.
\<close>

datatype event = Launch | AllSettled nat

definition batchSize :: nat where
  "batchSize = 1000"

fun batchLoop ::
  "nat \<Rightarrow> CsvParser \<Rightarrow> string list \<Rightarrow>
   (error + unit) list \<times> event list \<times> Stats \<times> fs_state \<Rightarrow>
   (error + unit) list \<times> event list \<times> Stats \<times> fs_state" where
  "batchLoop B p [] s = s"
| "batchLoop B p (line # lines) (promises, evs, sf) =
     (case processUsersLine p line sf of
        (r, sf') \<Rightarrow>
          (let promises' = promises @ [r];
               evs' = evs @ [Launch]
           in if length promises' \<ge> B
              then batchLoop B p lines ([], evs' @ [AllSettled (length promises')], sf')
              else batchLoop B p lines (promises', evs', sf')))"

definition run_batches ::
  "nat \<Rightarrow> CsvParser \<Rightarrow> string list \<Rightarrow> Stats \<times> fs_state \<Rightarrow> event list \<times> Stats \<times> fs_state" where
  \<comment> \<open>The loop and the wait for the last, partial batch.\<close>
  "run_batches B p lines sf =
     (case batchLoop B p lines ([], [], sf) of
        (promises, evs, sf') \<Rightarrow>
          (if length promises > 0 then (evs @ [AllSettled (length promises)], sf')
           else (evs, sf')))"

definition processUsersAsStreamAndConcurrency_traced ::
  "CsvParser \<Rightarrow> fs_state \<Rightarrow> ((error + Stats) \<times> fs_state) \<times> event list" where
  "processUsersAsStreamAndConcurrency_traced p fs =
     (let stats = new_Stats;
          lines = getLines p fs;
          fs1 = writeFile (outputFilePath p) (join '','' USER_HEADERS) fs
      in case lines of
           None \<Rightarrow> (catch_block p ENOENT fs1, [])
         | Some ls \<Rightarrow>
             (case next_line ls of
                (value, rest) \<Rightarrow>
                  (case processHeaders p value of
                     Inl e \<Rightarrow> (catch_block p e fs1, [])
                   | Inr p' \<Rightarrow>
                       (case run_batches batchSize p' rest (stats, fs1) of
                          (evs, st, fs2) \<Rightarrow> (after_try p st fs2, evs)))))"

definition processUsersAsStreamAndConcurrency ::
  "CsvParser \<Rightarrow> fs_state \<Rightarrow> (error + Stats) \<times> fs_state" where
  "processUsersAsStreamAndConcurrency p fs = fst (processUsersAsStreamAndConcurrency_traced p fs)"

section \<open>The static method of src/csv-parser.mjs\<close>

text \<open>
  The module in its form of one static method \<open>processUsers(inputFilePath, outputFilePath)\<close>:
  the header is written first, then the lines of the input are read in one loop that takes
  the first of them as the header, and the body of the loop is what \<open>processUsersLine\<close>
  became.
\<close>

fun static_loop ::
  "string \<Rightarrow> string list \<Rightarrow> bool \<times> int \<times> int \<times> int \<Rightarrow> Stats \<times> fs_state \<Rightarrow>
   (error + unit) \<times> Stats \<times> fs_state" where
  "static_loop out [] ix sf = (Inr (), sf)"
| "static_loop out (line # lines) (isFirstLine, nameIdx, emailIdx, ageIdx) (stats, fs) =
     (if isFirstLine then
        (let headers = split_on (CHR '','') line;
             nameIdx' = indexOf headers ''name'';
             emailIdx' = indexOf headers ''email'';
             ageIdx' = indexOf headers ''age''
         in if nameIdx' = - 1 \<or> emailIdx' = - 1 \<or> ageIdx' = - 1
            then (Inl MalformedHeader, stats, fs)
            else static_loop out lines (False, nameIdx', emailIdx', ageIdx') (stats, fs))
      else if trim line = [] then
        static_loop out lines (isFirstLine, nameIdx, emailIdx, ageIdx) (stats, fs)
      else
        (let vals = split_on (CHR '','') line;
             name = at vals nameIdx;
             email = at vals emailIdx;
             age = at vals ageIdx
         in if falsy name \<or> falsy email \<or> falsy age
            then static_loop out lines (isFirstLine, nameIdx, emailIdx, ageIdx)
                   (stats\<lparr>skipped := skipped stats + 1\<rparr>, fs)
            else
              (case processUser (trim (the name)) (trim (the email)) (parseInt (trim (the age))) of
                 Some processedLine \<Rightarrow>
                   (case appendFile out (EOL # processedLine) fs of
                      (Inl e, fs') \<Rightarrow> (Inl e, stats, fs')
                    | (Inr u, fs') \<Rightarrow>
                        static_loop out lines (isFirstLine, nameIdx, emailIdx, ageIdx)
                          (stats\<lparr>processed := processed stats + 1\<rparr>, fs'))
               | None \<Rightarrow>
                   static_loop out lines (isFirstLine, nameIdx, emailIdx, ageIdx)
                     (stats\<lparr>skipped := skipped stats + 1\<rparr>, fs))))"

definition static_processUsers ::
  "(string \<Rightarrow> string) \<Rightarrow> (string \<Rightarrow> string \<Rightarrow> string) \<Rightarrow> string \<Rightarrow> string option \<Rightarrow> fs_state \<Rightarrow>
   (error + Stats) \<times> fs_state" where
  "static_processUsers dirname path_join inputFile outputFile fs =
     (let out = (if falsy outputFile then path_join (dirname inputFile) ''output.csv''
                 else the outputFile);
          stats = new_Stats;
          fs1 = writeFile out (join '','' USER_HEADERS) fs
      in case files fs1 inputFile of
           None \<Rightarrow> (Inl ENOENT, safeDelete out fs1)
         | Some csv \<Rightarrow>
             (case static_loop out (readline_lines csv) (True, - 1, - 1, - 1) (stats, fs1) of
                (Inl e, st, fs2) \<Rightarrow> (Inl e, safeDelete out fs2)
              | (Inr u, st, fs2) \<Rightarrow>
                  (Inr st, if processed st = 0 then safeDelete out fs2 else fs2)))"

section \<open>Vocabulary of the properties\<close>

definition writable :: "fs_state \<Rightarrow> bool" where
  \<comment> \<open>The next append succeeds.\<close>
  "writable fs \<longleftrightarrow> (case faults fs of [] \<Rightarrow> True | f # fl \<Rightarrow> \<not> f)"

definition fault_free :: "fs_state \<Rightarrow> bool" where
  \<comment> \<open>No append is ever rejected.\<close>
  "fault_free fs \<longleftrightarrow> True \<notin> set (faults fs)"

definition ascii :: "string \<Rightarrow> bool" where
  \<comment> \<open>On ASCII strings the model of \<open>toUpperCase\<close> is exact.\<close>
  "ascii s \<longleftrightarrow> list_all (\<lambda>c. (of_char c :: nat) < 128) s"

definition count_nonblank :: "string list \<Rightarrow> nat" where
  "count_nonblank ls = length (filter (\<lambda>l. trim l \<noteq> []) ls)"

fun pending_from :: "nat \<Rightarrow> event list \<Rightarrow> nat" where
  "pending_from n [] = n"
| "pending_from n (Launch # es) = pending_from (n + 1) es"
| "pending_from n (AllSettled k # es) = pending_from (n - k) es"

definition pending :: "event list \<Rightarrow> nat" where
  \<comment> \<open>The units launched and not yet awaited, after the events of a trace.\<close>
  "pending es = pending_from 0 es"

definition bounded_trace :: "nat \<Rightarrow> event list \<Rightarrow> bool" where
  \<comment> \<open>Never more than \<open>B\<close> units pending; a unit is launched only below \<open>B\<close>; a wait is
      for all the units pending, of which there is at least one.\<close>
  "bounded_trace B es \<longleftrightarrow>
     (\<forall>k\<le>length es. pending (take k es) \<le> B) \<and>
     (\<forall>k<length es. es ! k = Launch \<longrightarrow> pending (take k es) < B) \<and>
     (\<forall>k<length es. \<forall>n. es ! k = AllSettled n \<longrightarrow> n = pending (take k es) \<and> 0 < n)"

text \<open>A sample run, on which the theorems are exercised.\<close>

definition sample_csv :: string where
  "sample_csv =
     ''name,email,age\<newline>john doe,john@example.com,25\<newline>jane smith,invalid-email,30\<newline>bob,bob@example.com,-5''"

definition sample_parser :: CsvParser where
  "sample_parser = new_CsvParser (\<lambda>d. d) (\<lambda>d f. f) ''input.csv'' (Some ''result.csv'')"

definition sample_fs :: fs_state where
  "sample_fs = \<lparr>files = [''input.csv'' \<mapsto> sample_csv], faults = []\<rparr>"

definition header_only_fs :: fs_state where
  "header_only_fs = \<lparr>files = [''input.csv'' \<mapsto> ''name,email,age''], faults = []\<rparr>"

definition bad_header_fs :: fs_state where
  \<comment> \<open>The first column is \<open>Name\<close>, not \<open>name\<close>.\<close>
  "bad_header_fs =
     \<lparr>files = [''input.csv'' \<mapsto> ''Name,email,age\<newline>john doe,john@example.com,25''],
      faults = []\<rparr>"

definition empty_input_fs :: fs_state where
  "empty_input_fs = \<lparr>files = [''input.csv'' \<mapsto> []], faults = []\<rparr>"

definition failing_sink_fs :: fs_state where
  \<comment> \<open>Two valid lines; the sink is unwritable at the second append.\<close>
  "failing_sink_fs =
     \<lparr>files = [''input.csv'' \<mapsto>
        ''name,email,age\<newline>john doe,john@example.com,25\<newline>mary major,mary@example.com,28''],
      faults = [False, True]\<rparr>"

definition resolved_parser :: CsvParser where
  \<comment> \<open>The sample parser after the header \<open>name,email,age\<close>.\<close>
  "resolved_parser = sample_parser\<lparr>nameIndex := 0, emailIndex := 1, ageIndex := 2\<rparr>"

definition full_batch_fs :: fs_state where
  \<comment> \<open>The header and a thousand empty lines.\<close>
  "full_batch_fs =
     \<lparr>files = [''input.csv'' \<mapsto> ''name,email,age'' @ replicate 1001 (CHR 0x0A)], faults = []\<rparr>"

section \<open>Facts about the string operations\<close>

lemma trim_Nil_iff: "trim s = [] \<longleftrightarrow> (\<forall>c\<in>set s. is_ws c)"
proof
  assume "trim s = []"
  then have "\<forall>x\<in>set (dropWhile is_ws s). is_ws x"
    by (simp add: trim_def dropWhile_eq_Nil_conv)
  then have "dropWhile is_ws s = []"
    using hd_dropWhile[of is_ws s] by (cases "dropWhile is_ws s") auto
  then show "\<forall>c\<in>set s. is_ws c"
    by (simp add: dropWhile_eq_Nil_conv)
next
  assume "\<forall>c\<in>set s. is_ws c"
  then show "trim s = []"
    by (auto simp: trim_def dest: set_dropWhileD)
qed


lemma split_on_not_Nil: "split_on sep s \<noteq> []"
  by (induction s) (auto simp: split_on.simps split: list.splits)


lemma set_split_on: "w \<in> set (split_on sep s) \<Longrightarrow> set w \<subseteq> set s"
proof (induction s arbitrary: w)
  case Nil
  then show ?case by (simp add: split_on.simps)
next
  case (Cons c cs)
  show ?case
  proof (cases "c = sep")
    case True
    with Cons show ?thesis by (auto simp: split_on.simps)
  next
    case False
    obtain v vs where vs: "split_on sep cs = v # vs"
      using split_on_not_Nil[of sep cs] by (cases "split_on sep cs") auto
    with False Cons.prems have "w = c # v \<or> w \<in> set vs"
      by (auto simp: split_on.simps)
    with Cons.IH vs show ?thesis by fastforce
  qed
qed

lemma indexOf_ge: "- 1 \<le> indexOf xs x"
  by (induction xs) (auto simp: Let_def)

lemma indexOf_absent: "indexOf xs x = - 1 \<longleftrightarrow> x \<notin> set xs"
proof (induction xs)
  case Nil
  then show ?case by simp
next
  case (Cons y ys)
  have "- 1 \<le> indexOf ys x" by (rule indexOf_ge)
  with Cons show ?case by (auto simp: Let_def)
qed


lemma at_in_set: "at xs i = Some v \<Longrightarrow> v \<in> set xs"
  by (auto simp: at_def split: if_splits)


section \<open>Facts about the file system and one line\<close>

lemma appendFile_writable:
  "writable fs \<Longrightarrow>
   appendFile path data fs = (Inr (), append_data path data (fs\<lparr>faults := tl (faults fs)\<rparr>))"
  by (cases "faults fs") (auto simp: appendFile_def append_data_def writable_def)

lemma fault_free_writable: "fault_free fs \<Longrightarrow> writable fs"
  by (cases "faults fs") (auto simp: fault_free_def writable_def)

lemma appendFile_Inr:
  assumes "appendFile path data fs = (Inr u, fs')"
  shows "files fs' path \<noteq> None"
    and "files fs q \<noteq> None \<Longrightarrow> files fs' q \<noteq> None"
    and "q \<noteq> path \<Longrightarrow> files fs' q = files fs q"
    and "fault_free fs \<Longrightarrow> fault_free fs'"
  using assms
  by (auto simp: appendFile_def append_data_def fault_free_def split: list.splits if_splits)

lemma appendFile_Inl:
  assumes "appendFile path data fs = (Inl e, fs')"
  shows "e = EIO" and "files fs' = files fs" and "\<not> writable fs"
  using assms
  by (auto simp: appendFile_def append_data_def writable_def split: list.splits if_splits)

lemma writeFile_files: "files (writeFile path data fs) = (files fs)(path \<mapsto> data)"
  by (simp add: writeFile_def)

lemma writeFile_faults: "faults (writeFile path data fs) = faults fs"
  by (simp add: writeFile_def)

lemma safeDelete_files: "files (safeDelete path fs) = (files fs)(path := None)"
  by (auto simp: safeDelete_def unlink_def split: option.splits)

lemma safeDelete_faults: "faults (safeDelete path fs) = faults fs"
  by (auto simp: safeDelete_def unlink_def split: option.splits)

lemma processUsersLine_blank:
  "trim line = [] \<Longrightarrow> processUsersLine p line (st, fs) = (Inr (), st, fs)"
  by (simp add: processUsersLine_def)

lemma processUsersLine_missing:
  "trim line \<noteq> [] \<Longrightarrow>
   falsy (at (split_on (CHR '','') line) (nameIndex p)) \<or>
   falsy (at (split_on (CHR '','') line) (emailIndex p)) \<or>
   falsy (at (split_on (CHR '','') line) (ageIndex p)) \<Longrightarrow>
   processUsersLine p line (st, fs) = (Inr (), st\<lparr>skipped := skipped st + 1\<rparr>, fs)"
  by (simp add: processUsersLine_def Let_def)

lemma processUsersLine_fields:
  assumes "trim line \<noteq> []"
    and "at (split_on (CHR '','') line) (nameIndex p) = Some n" "n \<noteq> []"
    and "at (split_on (CHR '','') line) (emailIndex p) = Some e" "e \<noteq> []"
    and "at (split_on (CHR '','') line) (ageIndex p) = Some a" "a \<noteq> []"
  shows "processUsersLine p line (st, fs) =
     (case processUser (trim n) (trim e) (parseInt (trim a)) of
        Some processedLine \<Rightarrow>
          (case appendFile (outputFilePath p) (EOL # processedLine) fs of
             (Inl err, fs') \<Rightarrow> (Inl err, st, fs')
           | (Inr u, fs') \<Rightarrow> (Inr (), st\<lparr>processed := processed st + 1\<rparr>, fs'))
      | None \<Rightarrow> (Inr (), st\<lparr>skipped := skipped st + 1\<rparr>, fs))"
  using assms by (simp add: processUsersLine_def Let_def falsy_def)

text \<open>The four outcomes of a unit of work.\<close>

lemma processUsersLine_outcome:
  assumes "processUsersLine p line (st, fs) = (r, st', fs')"
  shows "(trim line = [] \<and> r = Inr () \<and> st' = st \<and> fs' = fs) \<or>
         (trim line \<noteq> [] \<and> r = Inr () \<and> st' = st\<lparr>skipped := skipped st + 1\<rparr> \<and> fs' = fs) \<or>
         (trim line \<noteq> [] \<and> r = Inr () \<and> st' = st\<lparr>processed := processed st + 1\<rparr> \<and>
            (\<exists>data. appendFile (outputFilePath p) data fs = (Inr (), fs'))) \<or>
         (trim line \<noteq> [] \<and> r = Inl EIO \<and> st' = st \<and>
            (\<exists>data. appendFile (outputFilePath p) data fs = (Inl EIO, fs')))"
proof (cases "trim line = []")
  case True
  with assms show ?thesis by (simp add: processUsersLine_blank)
next
  case nb: False
  let ?vals = "split_on (CHR '','') line"
  show ?thesis
  proof (cases "falsy (at ?vals (nameIndex p)) \<or> falsy (at ?vals (emailIndex p)) \<or> falsy (at ?vals (ageIndex p))")
    case True
    with assms nb show ?thesis by (simp add: processUsersLine_missing)
  next
    case False
    then obtain n e a where f: "at ?vals (nameIndex p) = Some n" "n \<noteq> []"
        "at ?vals (emailIndex p) = Some e" "e \<noteq> []" "at ?vals (ageIndex p) = Some a" "a \<noteq> []"
      by (auto simp: falsy_def split: option.splits)
    note eq = processUsersLine_fields[OF nb f, of st fs]
    show ?thesis
    proof (cases "processUser (trim n) (trim e) (parseInt (trim a))")
      case None
      with assms eq nb show ?thesis by simp
    next
      case (Some out)
      obtain r2 fs2 where ap: "appendFile (outputFilePath p) (EOL # out) fs = (r2, fs2)"
        by (cases "appendFile (outputFilePath p) (EOL # out) fs") auto
      show ?thesis
      proof (cases r2)
        case (Inl err)
        with ap have "err = EIO" by (auto dest: appendFile_Inl(1))
        with assms eq nb Some ap Inl show ?thesis by auto
      next
        case (Inr u)
        with assms eq nb Some ap show ?thesis by auto
      qed
    qed
  qed
qed

lemma processUsersLine_total:
  "processUsersLine p line (st, fs) = (Inr u, st', fs') \<Longrightarrow>
   total st' = total st + (if trim line = [] then 0 else 1)"
  by (drule processUsersLine_outcome) (auto simp: total_def)

lemma processUsersLine_keeps_file:
  "processUsersLine p line (st, fs) = (r, st', fs') \<Longrightarrow> files fs q \<noteq> None \<Longrightarrow> files fs' q \<noteq> None"
  by (drule processUsersLine_outcome) (auto dest: appendFile_Inr(2) appendFile_Inl(2))

lemma processUsersLine_other_files:
  "processUsersLine p line (st, fs) = (r, st', fs') \<Longrightarrow> q \<noteq> outputFilePath p \<Longrightarrow> files fs' q = files fs q"
  by (drule processUsersLine_outcome) (auto dest: appendFile_Inr(3) appendFile_Inl(2))

lemma processUsersLine_fault_free:
  "processUsersLine p line (st, fs) = (r, st', fs') \<Longrightarrow> fault_free fs \<Longrightarrow> r = Inr () \<and> fault_free fs'"
  by (drule processUsersLine_outcome)
     (auto dest: appendFile_Inr(4) appendFile_Inl(3) fault_free_writable)

section \<open>Facts about the header and the loops\<close>

lemma processHeaders_undefined: "processHeaders p None = Inl TypeError"
  by (simp add: processHeaders_def)

lemma processHeaders_malformed:
  "''name'' \<notin> set (split_on (CHR '','') h) \<or> ''email'' \<notin> set (split_on (CHR '','') h) \<or>
   ''age'' \<notin> set (split_on (CHR '','') h) \<Longrightarrow>
   processHeaders p (Some h) = Inl MalformedHeader"
  by (auto simp: processHeaders_def Let_def indexOf_absent)


lemma count_nonblank_Cons:
  "count_nonblank (l # ls) = (if trim l = [] then 0 else 1) + count_nonblank ls"
  by (simp add: count_nonblank_def)

lemma processLines_total:
  "processLines p lines (st, fs) = (Inr u, st', fs') \<Longrightarrow>
   total st' = total st + count_nonblank lines"
proof (induction lines arbitrary: st fs)
  case Nil
  then show ?case by (simp add: count_nonblank_def)
next
  case (Cons l ls)
  obtain r st1 fs1 where step: "processUsersLine p l (st, fs) = (r, st1, fs1)"
    by (cases "processUsersLine p l (st, fs)") auto
  with Cons.prems obtain v where r: "r = Inr v" and rest: "processLines p ls (st1, fs1) = (Inr u, st', fs')"
    by (cases r) auto
  from step r have "total st1 = total st + (if trim l = [] then 0 else 1)"
    by (simp add: processUsersLine_total)
  with Cons.IH[OF rest] show ?case by (simp add: count_nonblank_Cons)
qed

lemma processLines_keeps_file:
  "processLines p lines (st, fs) = (r, st', fs') \<Longrightarrow> files fs q \<noteq> None \<Longrightarrow> files fs' q \<noteq> None"
proof (induction lines arbitrary: st fs)
  case Nil
  then show ?case by simp
next
  case (Cons l ls)
  obtain r1 st1 fs1 where step: "processUsersLine p l (st, fs) = (r1, st1, fs1)"
    by (cases "processUsersLine p l (st, fs)") auto
  then have keep: "files fs1 q \<noteq> None"
    using Cons.prems(2) by (rule processUsersLine_keeps_file)
  show ?case
  proof (cases r1)
    case (Inl e)
    with Cons.prems(1) step keep show ?thesis by simp
  next
    case (Inr v)
    with Cons.prems(1) step have "processLines p ls (st1, fs1) = (r, st', fs')" by simp
    then show ?thesis using keep by (rule Cons.IH)
  qed
qed

lemma processLines_other_files:
  "processLines p lines (st, fs) = (r, st', fs') \<Longrightarrow> q \<noteq> outputFilePath p \<Longrightarrow> files fs' q = files fs q"
proof (induction lines arbitrary: st fs)
  case Nil
  then show ?case by simp
next
  case (Cons l ls)
  obtain r1 st1 fs1 where step: "processUsersLine p l (st, fs) = (r1, st1, fs1)"
    by (cases "processUsersLine p l (st, fs)") auto
  then have same: "files fs1 q = files fs q"
    using Cons.prems(2) by (rule processUsersLine_other_files)
  show ?case
  proof (cases r1)
    case (Inl e)
    with Cons.prems(1) step same show ?thesis by simp
  next
    case (Inr v)
    with Cons.prems(1) step have "processLines p ls (st1, fs1) = (r, st', fs')" by simp
    then have "files fs' q = files fs1 q" using Cons.prems(2) by (rule Cons.IH)
    with same show ?thesis by simp
  qed
qed

lemma processLines_fault_free:
  "fault_free fs \<Longrightarrow> \<exists>st' fs'. processLines p lines (st, fs) = (Inr (), st', fs') \<and> fault_free fs'"
proof (induction lines arbitrary: st fs)
  case Nil
  then show ?case by simp
next
  case (Cons l ls)
  obtain r1 st1 fs1 where step: "processUsersLine p l (st, fs) = (r1, st1, fs1)"
    by (cases "processUsersLine p l (st, fs)") auto
  with Cons.prems have "r1 = Inr ()" "fault_free fs1"
    by (auto dest: processUsersLine_fault_free)
  with Cons.IH[of fs1 st1] step show ?case by simp
qed

text \<open>The batched loop: the file, and its agreement with the sequential loop.\<close>

lemma batchLoop_keeps_file:
  "batchLoop B p lines (ps, evs, st, fs) = (ps', evs', st', fs') \<Longrightarrow>
   files fs q \<noteq> None \<Longrightarrow> files fs' q \<noteq> None"
proof (induction lines arbitrary: ps evs st fs)
  case Nil
  then show ?case by simp
next
  case (Cons l ls)
  obtain r1 st1 fs1 where step: "processUsersLine p l (st, fs) = (r1, st1, fs1)"
    by (cases "processUsersLine p l (st, fs)") auto
  then have keep: "files fs1 q \<noteq> None"
    using Cons.prems(2) by (rule processUsersLine_keeps_file)
  show ?case
  proof (cases "B \<le> length (ps @ [r1])")
    case True
    with Cons.prems(1) step
    have "batchLoop B p ls ([], (evs @ [Launch]) @ [AllSettled (length (ps @ [r1]))], st1, fs1) =
        (ps', evs', st', fs')"
      by (simp add: Let_def)
    then show ?thesis using keep by (rule Cons.IH)
  next
    case False
    with Cons.prems(1) step
    have "batchLoop B p ls (ps @ [r1], evs @ [Launch], st1, fs1) = (ps', evs', st', fs')"
      by (simp add: Let_def)
    then show ?thesis using keep by (rule Cons.IH)
  qed
qed

lemma batchLoop_sequential:
  "processLines p lines (st, fs) = (Inr u, st', fs') \<Longrightarrow>
   snd (snd (batchLoop B p lines (ps, evs, st, fs))) = (st', fs')"
proof (induction lines arbitrary: ps evs st fs)
  case Nil
  then show ?case by simp
next
  case (Cons l ls)
  obtain r1 st1 fs1 where step: "processUsersLine p l (st, fs) = (r1, st1, fs1)"
    by (cases "processUsersLine p l (st, fs)") auto
  with Cons.prems obtain v where "r1 = Inr v"
    and rest: "processLines p ls (st1, fs1) = (Inr u, st', fs')"
    by (cases r1) auto
  with step show ?case
    by (simp add: Let_def Cons.IH[OF rest])
qed

lemma run_batches_keeps_file:
  "run_batches B p lines (st, fs) = (evs, st', fs') \<Longrightarrow> files fs q \<noteq> None \<Longrightarrow> files fs' q \<noteq> None"
  by (cases "batchLoop B p lines ([], [], st, fs)")
     (auto simp: run_batches_def split: if_splits dest: batchLoop_keeps_file)

lemma run_batches_sequential:
  "processLines p lines (st, fs) = (Inr u, st', fs') \<Longrightarrow>
   snd (run_batches B p lines (st, fs)) = (st', fs')"
  using batchLoop_sequential[of p lines st fs u st' fs' B "[]" "[]"]
  by (cases "batchLoop B p lines ([], [], st, fs)") (auto simp: run_batches_def)

section \<open>The methods on a file with a well-formed header\<close>

lemma join_USER_HEADERS: "join '','' USER_HEADERS = ''name,email,age''"
  by code_simp

lemma processUsers_run:
  assumes "files fs (inputFilePath p) = Some csv" and "trim csv \<noteq> []"
    and "split_on EOL csv = h # rest" and "processHeaders p (Some h) = Inr p'"
  shows "processUsers p fs =
     (case processLines p' rest (new_Stats, writeFile (outputFilePath p) ''name,email,age'' fs) of
        (Inl e, st, fs2) \<Rightarrow> catch_block p e fs2
      | (Inr u, st, fs2) \<Rightarrow> after_try p st fs2)"
  using assms
  by (simp add: processUsers_def readFile_def next_line_def join_USER_HEADERS)

lemma processUsersAsStream_run:
  assumes "files fs (inputFilePath p) = Some csv"
    and "readline_lines csv = h # rest" and "processHeaders p (Some h) = Inr p'"
  shows "processUsersAsStream p fs =
     (case processLines p' rest (new_Stats, writeFile (outputFilePath p) ''name,email,age'' fs) of
        (Inl e, st, fs2) \<Rightarrow> catch_block p e fs2
      | (Inr u, st, fs2) \<Rightarrow> after_try p st fs2)"
  using assms
  by (simp add: processUsersAsStream_def getLines_def next_line_def join_USER_HEADERS)

lemma processUsersAsStreamAndConcurrency_run:
  assumes "files fs (inputFilePath p) = Some csv"
    and "readline_lines csv = h # rest" and "processHeaders p (Some h) = Inr p'"
  shows "processUsersAsStreamAndConcurrency_traced p fs =
     (case run_batches batchSize p' rest
             (new_Stats, writeFile (outputFilePath p) ''name,email,age'' fs) of
        (evs, st, fs2) \<Rightarrow> (after_try p st fs2, evs))"
  using assms
  by (simp add: processUsersAsStreamAndConcurrency_traced_def getLines_def next_line_def
      join_USER_HEADERS)

lemma header_resolved:
  "processHeaders p (Some ''name,email,age'') = Inr (p\<lparr>nameIndex := 0, emailIndex := 1, ageIndex := 2\<rparr>)"
proof -
  have "split_on (CHR '','') ''name,email,age'' = [''name'', ''email'', ''age'']"
    by code_simp
  then show ?thesis by (simp add: processHeaders_def Let_def)
qed

lemma line_john:
  assumes "writable fs"
  shows "processUsersLine (p\<lparr>nameIndex := 0, emailIndex := 1, ageIndex := 2\<rparr>)
           ''john doe,john@example.com,25'' (st, fs) =
         (Inr (), st\<lparr>processed := processed st + 1\<rparr>,
          append_data (outputFilePath p) (EOL # ''JOHN DOE,john@example.com,25'')
            (fs\<lparr>faults := tl (faults fs)\<rparr>))"
proof -
  have a: "split_on (CHR '','') ''john doe,john@example.com,25'' =
      [''john doe'', ''john@example.com'', ''25'']" by code_simp
  have b: "trim ''john doe,john@example.com,25'' \<noteq> []" by code_simp
  have c: "processUser (trim ''john doe'') (trim ''john@example.com'') (parseInt (trim ''25'')) =
      Some ''JOHN DOE,john@example.com,25''" by code_simp
  show ?thesis
    by (subst processUsersLine_fields[where n="''john doe''" and e="''john@example.com''" and a="''25''"])
       (simp_all add: a b c at_def appendFile_writable[OF assms])
qed

lemma line_jane:
  "processUsersLine (p\<lparr>nameIndex := 0, emailIndex := 1, ageIndex := 2\<rparr>)
     ''jane smith,invalid-email,30'' (st, fs) = (Inr (), st\<lparr>skipped := skipped st + 1\<rparr>, fs)"
proof -
  have a: "split_on (CHR '','') ''jane smith,invalid-email,30'' =
      [''jane smith'', ''invalid-email'', ''30'']" by code_simp
  have b: "trim ''jane smith,invalid-email,30'' \<noteq> []" by code_simp
  have c: "processUser (trim ''jane smith'') (trim ''invalid-email'') (parseInt (trim ''30'')) = None"
    by code_simp
  show ?thesis
    by (subst processUsersLine_fields[where n="''jane smith''" and e="''invalid-email''" and a="''30''"])
       (simp_all add: a b c at_def)
qed

lemma line_bob:
  "processUsersLine (p\<lparr>nameIndex := 0, emailIndex := 1, ageIndex := 2\<rparr>)
     ''bob,bob@example.com,-5'' (st, fs) = (Inr (), st\<lparr>skipped := skipped st + 1\<rparr>, fs)"
proof -
  have a: "split_on (CHR '','') ''bob,bob@example.com,-5'' = [''bob'', ''bob@example.com'', ''-5'']"
    by code_simp
  have b: "trim ''bob,bob@example.com,-5'' \<noteq> []" by code_simp
  have c: "processUser (trim ''bob'') (trim ''bob@example.com'') (parseInt (trim ''-5'')) = None"
    by code_simp
  show ?thesis
    by (subst processUsersLine_fields[where n="''bob''" and e="''bob@example.com''" and a="''-5''"])
       (simp_all add: a b c at_def)
qed

lemma scenario_lines:
  assumes "writable fs"
  shows "processLines (p\<lparr>nameIndex := 0, emailIndex := 1, ageIndex := 2\<rparr>)
      [''john doe,john@example.com,25'', ''jane smith,invalid-email,30'', ''bob,bob@example.com,-5'']
      (new_Stats, fs) =
     (Inr (), \<lparr>processed = 1, skipped = 2\<rparr>,
      append_data (outputFilePath p) (EOL # ''JOHN DOE,john@example.com,25'')
        (fs\<lparr>faults := tl (faults fs)\<rparr>))"
  by (simp add: line_john[OF assms] line_jane line_bob new_Stats_def)

lemma scenario_results:
  assumes inp: "files fs (inputFilePath p) =
      Some ''name,email,age\<newline>john doe,john@example.com,25\<newline>jane smith,invalid-email,30\<newline>bob,bob@example.com,-5''"
    and ok: "writable fs"
  defines "fs2 \<equiv> append_data (outputFilePath p) (EOL # ''JOHN DOE,john@example.com,25'')
      ((writeFile (outputFilePath p) ''name,email,age'' fs)\<lparr>faults := tl (faults fs)\<rparr>)"
  shows "processUsers p fs = (Inr \<lparr>processed = 1, skipped = 2\<rparr>, fs2)"
    and "processUsersAsStream p fs = (Inr \<lparr>processed = 1, skipped = 2\<rparr>, fs2)"
    and "processUsersAsStreamAndConcurrency p fs = (Inr \<lparr>processed = 1, skipped = 2\<rparr>, fs2)"
    and "files fs2 (outputFilePath p) = Some ''name,email,age\<newline>JOHN DOE,john@example.com,25''"
proof -
  let ?csv = "''name,email,age\<newline>john doe,john@example.com,25\<newline>jane smith,invalid-email,30\<newline>bob,bob@example.com,-5''"
  let ?ls = "[''john doe,john@example.com,25'', ''jane smith,invalid-email,30'', ''bob,bob@example.com,-5'']"
  let ?p' = "p\<lparr>nameIndex := 0, emailIndex := 1, ageIndex := 2\<rparr>"
  let ?fs1 = "writeFile (outputFilePath p) ''name,email,age'' fs"
  have s: "split_on EOL ?csv = ''name,email,age'' # ?ls" by code_simp
  have r: "readline_lines ?csv = ''name,email,age'' # ?ls" by code_simp
  have t: "trim ?csv \<noteq> []" by code_simp
  have ok1: "writable ?fs1" using ok by (simp add: writable_def writeFile_def)
  have fs2: "fs2 = append_data (outputFilePath p) (EOL # ''JOHN DOE,john@example.com,25'')
      (?fs1\<lparr>faults := tl (faults ?fs1)\<rparr>)"
    by (simp add: fs2_def writeFile_faults)
  have seq: "processLines ?p' ?ls (new_Stats, ?fs1) = (Inr (), \<lparr>processed = 1, skipped = 2\<rparr>, fs2)"
    unfolding fs2 using ok1 by (rule scenario_lines)
  show "files fs2 (outputFilePath p) = Some ''name,email,age\<newline>JOHN DOE,john@example.com,25''"
    by (simp add: fs2_def append_data_def writeFile_def EOL_def)
  show "processUsers p fs = (Inr \<lparr>processed = 1, skipped = 2\<rparr>, fs2)"
    by (simp only: processUsers_run[OF inp t s header_resolved] seq)
       (simp add: after_try_def)
  show "processUsersAsStream p fs = (Inr \<lparr>processed = 1, skipped = 2\<rparr>, fs2)"
    by (simp only: processUsersAsStream_run[OF inp r header_resolved] seq)
       (simp add: after_try_def)
  have "snd (run_batches batchSize ?p' ?ls (new_Stats, ?fs1)) = (\<lparr>processed = 1, skipped = 2\<rparr>, fs2)"
    using seq by (rule run_batches_sequential)
  then show "processUsersAsStreamAndConcurrency p fs = (Inr \<lparr>processed = 1, skipped = 2\<rparr>, fs2)"
    unfolding processUsersAsStreamAndConcurrency_def
      processUsersAsStreamAndConcurrency_run[OF inp r header_resolved]
    by (cases "run_batches batchSize ?p' ?ls (new_Stats, ?fs1)") (simp add: after_try_def)
qed

text \<open>The sample run: the scenario input in \<open>input.csv\<close>, written to \<open>result.csv\<close>.\<close>

lemma sample_run:
  shows "files sample_fs (inputFilePath sample_parser) = Some sample_csv"
    and "inputFilePath sample_parser \<noteq> outputFilePath sample_parser"
    and "fault_free sample_fs"
    and "writable sample_fs"
    and "fst (processUsers sample_parser sample_fs) = Inr \<lparr>processed = 1, skipped = 2\<rparr>"
    and "fst (processUsersAsStream sample_parser sample_fs) = Inr \<lparr>processed = 1, skipped = 2\<rparr>"
    and "fst (processUsersAsStreamAndConcurrency sample_parser sample_fs) =
           Inr \<lparr>processed = 1, skipped = 2\<rparr>"
proof -
  show inp: "files sample_fs (inputFilePath sample_parser) = Some sample_csv"
    by (simp add: sample_fs_def sample_parser_def new_CsvParser_def)
  show "inputFilePath sample_parser \<noteq> outputFilePath sample_parser"
    by (simp add: sample_parser_def new_CsvParser_def)
  show "fault_free sample_fs"
    by (simp add: sample_fs_def fault_free_def)
  show ok: "writable sample_fs"
    by (simp add: sample_fs_def writable_def)
  note res = scenario_results[OF inp[unfolded sample_csv_def] ok]
  show "fst (processUsers sample_parser sample_fs) = Inr \<lparr>processed = 1, skipped = 2\<rparr>"
    by (simp only: res(1) fst_conv)
  show "fst (processUsersAsStream sample_parser sample_fs) = Inr \<lparr>processed = 1, skipped = 2\<rparr>"
    by (simp only: res(2) fst_conv)
  show "fst (processUsersAsStreamAndConcurrency sample_parser sample_fs) =
      Inr \<lparr>processed = 1, skipped = 2\<rparr>"
    by (simp only: res(3) fst_conv)
qed

text \<open>
  C6. On the input of the header and the three lines of john doe, jane smith and bob, each
  of the three methods returns the stats 1 processed, 2 skipped, and leaves an output file
  that holds the header and the one line of JOHN DOE (the first append being written,
  and the input and the output being different files).
\<close>

theorem scenario_three_lines:
  assumes inp: "files fs (inputFilePath p) =
      Some ''name,email,age\<newline>john doe,john@example.com,25\<newline>jane smith,invalid-email,30\<newline>bob,bob@example.com,-5''"
    and ne: "inputFilePath p \<noteq> outputFilePath p"
    and ok: "writable fs"
  shows "(\<exists>fs'. processUsers p fs = (Inr \<lparr>processed = 1, skipped = 2\<rparr>, fs') \<and>
            files fs' (outputFilePath p) = Some ''name,email,age\<newline>JOHN DOE,john@example.com,25'') \<and>
         (\<exists>fs'. processUsersAsStream p fs = (Inr \<lparr>processed = 1, skipped = 2\<rparr>, fs') \<and>
            files fs' (outputFilePath p) = Some ''name,email,age\<newline>JOHN DOE,john@example.com,25'') \<and>
         (\<exists>fs'. processUsersAsStreamAndConcurrency p fs = (Inr \<lparr>processed = 1, skipped = 2\<rparr>, fs') \<and>
            files fs' (outputFilePath p) = Some ''name,email,age\<newline>JOHN DOE,john@example.com,25'')"
  using scenario_results[OF inp ok] by blast

theorem scenario_three_lines_witness:
  "files sample_fs (inputFilePath sample_parser) =
     Some ''name,email,age\<newline>john doe,john@example.com,25\<newline>jane smith,invalid-email,30\<newline>bob,bob@example.com,-5'' \<and>
   inputFilePath sample_parser \<noteq> outputFilePath sample_parser \<and>
   writable sample_fs \<and>
   (\<exists>fs'. processUsersAsStreamAndConcurrency sample_parser sample_fs =
            (Inr \<lparr>processed = 1, skipped = 2\<rparr>, fs') \<and>
          files fs' ''result.csv'' = Some ''name,email,age\<newline>JOHN DOE,john@example.com,25'')"
proof -
  have out: "outputFilePath sample_parser = ''result.csv''"
    by (simp add: sample_parser_def new_CsvParser_def)
  note h = sample_run(1)[unfolded sample_csv_def] sample_run(2) sample_run(4)
  from scenario_three_lines[OF h] h show ?thesis
    unfolding out by blast
qed

section \<open>What a run that returns stats has done\<close>

lemma processUsersAsStream_Inr:
  assumes "processUsersAsStream p fs = (Inr st, fs')"
  obtains csv h rest p' fs2 where "files fs (inputFilePath p) = Some csv"
    and "readline_lines csv = h # rest" and "processHeaders p (Some h) = Inr p'"
    and "processLines p' rest (new_Stats, writeFile (outputFilePath p) ''name,email,age'' fs) =
           (Inr (), st, fs2)"
    and "fs' = (if processed st = 0 then safeDelete (outputFilePath p) fs2 else fs2)"
proof -
  let ?fs1 = "writeFile (outputFilePath p) ''name,email,age'' fs"
  from assms obtain csv where csv: "files fs (inputFilePath p) = Some csv"
    by (cases "files fs (inputFilePath p)")
       (auto simp: processUsersAsStream_def getLines_def catch_block_def Let_def)
  from assms csv obtain h rest where ls: "readline_lines csv = h # rest"
    by (cases "readline_lines csv")
       (auto simp: processUsersAsStream_def getLines_def next_line_def catch_block_def Let_def
          processHeaders_undefined)
  from assms csv ls obtain p' where hd: "processHeaders p (Some h) = Inr p'"
    by (cases "processHeaders p (Some h)")
       (auto simp: processUsersAsStream_def getLines_def next_line_def catch_block_def Let_def)
  obtain r st2 fs2 where run: "processLines p' rest (new_Stats, ?fs1) = (r, st2, fs2)"
    by (cases "processLines p' rest (new_Stats, ?fs1)") auto
  from assms have "(case r of Inl e \<Rightarrow> catch_block p e fs2 | Inr u \<Rightarrow> after_try p st2 fs2) = (Inr st, fs')"
    by (simp add: processUsersAsStream_run[OF csv ls hd] run split: sum.splits)
  then have "r = Inr ()" "st2 = st" "fs' = (if processed st = 0 then safeDelete (outputFilePath p) fs2 else fs2)"
    by (cases r; auto simp: catch_block_def after_try_def)+
  with run csv ls hd that show thesis by blast
qed

lemma processUsersAsStreamAndConcurrency_Inr:
  assumes "processUsersAsStreamAndConcurrency p fs = (Inr st, fs')"
  obtains csv h rest p' evs fs2 where "files fs (inputFilePath p) = Some csv"
    and "readline_lines csv = h # rest" and "processHeaders p (Some h) = Inr p'"
    and "run_batches batchSize p' rest
           (new_Stats, writeFile (outputFilePath p) ''name,email,age'' fs) = (evs, st, fs2)"
    and "fs' = (if processed st = 0 then safeDelete (outputFilePath p) fs2 else fs2)"
proof -
  let ?fs1 = "writeFile (outputFilePath p) ''name,email,age'' fs"
  note defs = processUsersAsStreamAndConcurrency_def processUsersAsStreamAndConcurrency_traced_def
  from assms obtain csv where csv: "files fs (inputFilePath p) = Some csv"
    by (cases "files fs (inputFilePath p)")
       (auto simp: defs getLines_def catch_block_def Let_def)
  from assms csv obtain h rest where ls: "readline_lines csv = h # rest"
    by (cases "readline_lines csv")
       (auto simp: defs getLines_def next_line_def catch_block_def Let_def
          processHeaders_undefined)
  from assms csv ls obtain p' where hd: "processHeaders p (Some h) = Inr p'"
    by (cases "processHeaders p (Some h)")
       (auto simp: defs getLines_def next_line_def catch_block_def Let_def)
  obtain evs st2 fs2 where run: "run_batches batchSize p' rest (new_Stats, ?fs1) = (evs, st2, fs2)"
    by (cases "run_batches batchSize p' rest (new_Stats, ?fs1)") auto
  from assms have "after_try p st2 fs2 = (Inr st, fs')"
    by (simp add: processUsersAsStreamAndConcurrency_def
        processUsersAsStreamAndConcurrency_run[OF csv ls hd] run)
  then have "st2 = st" "fs' = (if processed st = 0 then safeDelete (outputFilePath p) fs2 else fs2)"
    by (auto simp: after_try_def)
  with run csv ls hd that show thesis by blast
qed

lemma processUsers_Inr:
  assumes "processUsers p fs = (Inr st, fs')"
  obtains csv where "files fs (inputFilePath p) = Some csv" and "trim csv = []"
    and "st = new_Stats" and "fs' = fs"
  | csv h rest p' fs2 where "files fs (inputFilePath p) = Some csv" and "trim csv \<noteq> []"
    and "split_on EOL csv = h # rest" and "processHeaders p (Some h) = Inr p'"
    and "processLines p' rest (new_Stats, writeFile (outputFilePath p) ''name,email,age'' fs) =
           (Inr (), st, fs2)"
    and "fs' = (if processed st = 0 then safeDelete (outputFilePath p) fs2 else fs2)"
proof -
  let ?fs1 = "writeFile (outputFilePath p) ''name,email,age'' fs"
  from assms obtain csv where csv: "files fs (inputFilePath p) = Some csv"
    by (cases "files fs (inputFilePath p)")
       (auto simp: processUsers_def readFile_def catch_block_def Let_def)
  show thesis
  proof (cases "trim csv = []")
    case True
    with assms csv have "st = new_Stats" "fs' = fs"
      by (auto simp: processUsers_def readFile_def Let_def)
    with csv True that(1) show thesis by blast
  next
    case nb: False
    obtain h rest where ls: "split_on EOL csv = h # rest"
      using split_on_not_Nil[of EOL csv] by (cases "split_on EOL csv") auto
    from assms csv nb ls obtain p' where hd: "processHeaders p (Some h) = Inr p'"
      by (cases "processHeaders p (Some h)")
         (auto simp: processUsers_def readFile_def next_line_def catch_block_def Let_def)
    obtain r st2 fs2 where run: "processLines p' rest (new_Stats, ?fs1) = (r, st2, fs2)"
      by (cases "processLines p' rest (new_Stats, ?fs1)") auto
    from assms have "(case r of Inl e \<Rightarrow> catch_block p e fs2 | Inr u \<Rightarrow> after_try p st2 fs2) = (Inr st, fs')"
      by (simp add: processUsers_run[OF csv nb ls hd] run split: sum.splits)
    then have "r = Inr ()" "st2 = st" "fs' = (if processed st = 0 then safeDelete (outputFilePath p) fs2 else fs2)"
      by (cases r; auto simp: catch_block_def after_try_def)+
    with run csv nb ls hd that(2) show thesis by blast
  qed
qed

lemma blank_file_blank_lines:
  assumes "trim csv = []"
  shows "count_nonblank (tl (split_on sep csv)) = 0"
proof -
  have "trim l = []" if "l \<in> set (split_on sep csv)" for l
    using that assms set_split_on[of l sep csv] by (auto simp: trim_Nil_iff)
  then have "\<forall>l\<in>set (tl (split_on sep csv)). trim l = []"
    using split_on_not_Nil[of sep csv] by (auto dest: list.set_sel(2))
  then show ?thesis
    by (simp add: count_nonblank_def)
qed

section \<open>The counters\<close>

text \<open>
  What holds of the counters. When \<open>processUsers\<close> or \<open>processUsersAsStream\<close> returns
  stats, \<open>total\<close> is the number of non-blank data lines after the header (of the lines that
  \<open>split\<close> on the line separator gives for the first, that \<open>readline\<close> gives for the
  second). For the concurrent method this holds in the runs where no append is rejected;
  in the others it does not (see \<open>failing_sink_run\<close>). A unit of work that is fulfilled
  leaves both counters as they are on a blank line and adds one to exactly one of them on
  any other line.
\<close>

lemma counters_of_fulfilled_runs:
  assumes csv: "files fs (inputFilePath p) = Some csv"
    and ne: "inputFilePath p \<noteq> outputFilePath p"
  shows "(processUsers p fs = (Inr st, fs') \<longrightarrow>
            total st = count_nonblank (tl (split_on EOL csv))) \<and>
         (processUsersAsStream p fs = (Inr st, fs') \<longrightarrow>
            total st = count_nonblank (tl (readline_lines csv))) \<and>
         (fault_free fs \<and> processUsersAsStreamAndConcurrency p fs = (Inr st, fs') \<longrightarrow>
            total st = count_nonblank (tl (readline_lines csv))) \<and>
         (processUsersLine q line (st0, fs0) = (Inr (), st1, fs1) \<longrightarrow>
            (trim line = [] \<longrightarrow> st1 = st0) \<and>
            (trim line \<noteq> [] \<longrightarrow>
               st1 = st0\<lparr>processed := processed st0 + 1\<rparr> \<or>
               st1 = st0\<lparr>skipped := skipped st0 + 1\<rparr>))"
proof (intro conjI impI)
  assume run: "processUsers p fs = (Inr st, fs')"
  then show "total st = count_nonblank (tl (split_on EOL csv))"
  proof (cases rule: processUsers_Inr)
    case (1 csv')
    with csv show ?thesis
      by (simp add: blank_file_blank_lines new_Stats_def total_def)
  next
    case (2 csv' h rest p' fs2)
    from 2(5) have "total st = total new_Stats + count_nonblank rest"
      by (rule processLines_total)
    with 2(1,3) csv show ?thesis
      by (simp add: new_Stats_def total_def)
  qed
next
  assume run: "processUsersAsStream p fs = (Inr st, fs')"
  then show "total st = count_nonblank (tl (readline_lines csv))"
  proof (cases rule: processUsersAsStream_Inr)
    case (1 csv' h rest p' fs2)
    from 1(4) have "total st = total new_Stats + count_nonblank rest"
      by (rule processLines_total)
    with 1(1,2) csv show ?thesis
      by (simp add: new_Stats_def total_def)
  qed
next
  assume "fault_free fs \<and> processUsersAsStreamAndConcurrency p fs = (Inr st, fs')"
  then have ff: "fault_free fs" and run: "processUsersAsStreamAndConcurrency p fs = (Inr st, fs')"
    by simp_all
  from run show "total st = count_nonblank (tl (readline_lines csv))"
  proof (cases rule: processUsersAsStreamAndConcurrency_Inr)
    case (1 csv' h rest p' evs fs2)
    let ?fs1 = "writeFile (outputFilePath p) ''name,email,age'' fs"
    from ff have "fault_free ?fs1"
      by (simp add: fault_free_def writeFile_faults)
    then obtain st2 fs3 where seq: "processLines p' rest (new_Stats, ?fs1) = (Inr (), st2, fs3)"
      using processLines_fault_free by blast
    then have "snd (run_batches batchSize p' rest (new_Stats, ?fs1)) = (st2, fs3)"
      by (rule run_batches_sequential)
    with 1(4) have "st2 = st" by simp
    moreover from seq have "total st2 = total new_Stats + count_nonblank rest"
      by (rule processLines_total)
    ultimately show ?thesis
      using 1(1,2) csv by (simp add: new_Stats_def total_def)
  qed
next
  assume "processUsersLine q line (st0, fs0) = (Inr (), st1, fs1)" and "trim line = []"
  then show "st1 = st0"
    by (simp add: processUsersLine_blank)
next
  assume "processUsersLine q line (st0, fs0) = (Inr (), st1, fs1)" and "trim line \<noteq> []"
  then show "st1 = st0\<lparr>processed := processed st0 + 1\<rparr> \<or> st1 = st0\<lparr>skipped := skipped st0 + 1\<rparr>"
    by (auto dest: processUsersLine_outcome)
qed

lemma counters_of_fulfilled_runs_sample:
  "files sample_fs (inputFilePath sample_parser) = Some sample_csv \<and>
   inputFilePath sample_parser \<noteq> outputFilePath sample_parser \<and>
   fault_free sample_fs \<and>
   fst (processUsers sample_parser sample_fs) = Inr \<lparr>processed = 1, skipped = 2\<rparr> \<and>
   fst (processUsersAsStream sample_parser sample_fs) = Inr \<lparr>processed = 1, skipped = 2\<rparr> \<and>
   fst (processUsersAsStreamAndConcurrency sample_parser sample_fs) =
     Inr \<lparr>processed = 1, skipped = 2\<rparr> \<and>
   total \<lparr>processed = 1, skipped = 2\<rparr> = count_nonblank (tl (split_on EOL sample_csv)) \<and>
   total \<lparr>processed = 1, skipped = 2\<rparr> = count_nonblank (tl (readline_lines sample_csv)) \<and>
   count_nonblank (tl (readline_lines sample_csv)) = 3 \<and>
   trim ''  '' = [] \<and>
   processUsersLine resolved_parser ''  '' (new_Stats, sample_fs) = (Inr (), new_Stats, sample_fs) \<and>
   trim ''bob,bob@example.com,-5'' \<noteq> [] \<and>
   processUsersLine resolved_parser ''bob,bob@example.com,-5'' (new_Stats, sample_fs) =
     (Inr (), new_Stats\<lparr>skipped := skipped new_Stats + 1\<rparr>, sample_fs)"
proof -
  let ?st = "\<lparr>processed = 1, skipped = 2\<rparr>"
  have a: "processUsers sample_parser sample_fs = (Inr ?st, snd (processUsers sample_parser sample_fs))"
    using sample_run(5) by (metis prod.collapse)
  have b: "processUsersAsStream sample_parser sample_fs =
      (Inr ?st, snd (processUsersAsStream sample_parser sample_fs))"
    using sample_run(6) by (metis prod.collapse)
  have c: "processUsersAsStreamAndConcurrency sample_parser sample_fs =
      (Inr ?st, snd (processUsersAsStreamAndConcurrency sample_parser sample_fs))"
    using sample_run(7) by (metis prod.collapse)
  have blank: "trim ''  '' = []" by code_simp
  have bob: "trim ''bob,bob@example.com,-5'' \<noteq> []" by code_simp
  have l1: "processUsersLine resolved_parser ''  '' (new_Stats, sample_fs) = (Inr (), new_Stats, sample_fs)"
    using blank by (rule processUsersLine_blank)
  have l2: "processUsersLine resolved_parser ''bob,bob@example.com,-5'' (new_Stats, sample_fs) =
     (Inr (), new_Stats\<lparr>skipped := skipped new_Stats + 1\<rparr>, sample_fs)"
    unfolding resolved_parser_def by (rule line_bob)
  have n: "count_nonblank (tl (readline_lines sample_csv)) = 3"
    unfolding sample_csv_def by code_simp
  note t = counters_of_fulfilled_runs[OF sample_run(1) sample_run(2)]
  from t[where st = ?st and fs' = "snd (processUsers sample_parser sample_fs)"] a
  have t1: "total ?st = count_nonblank (tl (split_on EOL sample_csv))" by blast
  from t[where st = ?st and fs' = "snd (processUsersAsStream sample_parser sample_fs)"] b
  have t2: "total ?st = count_nonblank (tl (readline_lines sample_csv))" by blast
  from t[where st = ?st and fs' = "snd (processUsersAsStreamAndConcurrency sample_parser sample_fs)"]
    c sample_run(3)
  have t3: "total ?st = count_nonblank (tl (readline_lines sample_csv))" by blast
  from t[where q = resolved_parser and line = "''  ''" and ?st0.0 = new_Stats and ?fs0.0 = sample_fs
      and ?st1.0 = new_Stats and ?fs1.0 = sample_fs] l1 blank
  have t4: "new_Stats = new_Stats" by blast
  from t[where q = resolved_parser and line = "''bob,bob@example.com,-5''" and ?st0.0 = new_Stats
      and ?fs0.0 = sample_fs and ?st1.0 = "new_Stats\<lparr>skipped := skipped new_Stats + 1\<rparr>"
      and ?fs1.0 = sample_fs] l2 bob
  have t5: "new_Stats\<lparr>skipped := skipped new_Stats + 1\<rparr> = new_Stats\<lparr>processed := processed new_Stats + 1\<rparr> \<or>
            new_Stats\<lparr>skipped := skipped new_Stats + 1\<rparr> = new_Stats\<lparr>skipped := skipped new_Stats + 1\<rparr>"
    by blast
  from sample_run t1 t3 t4 t5 n blank bob l1 l2 show ?thesis by blast
qed


section \<open>The header\<close>

text \<open>
  C7. When the first line of the input, split on commas, lacks one of the names \<open>name\<close>,
  \<open>email\<close> and \<open>age\<close> (compared as they are, so case matters), \<open>processHeaders\<close> throws
  the malformed-header error and both streaming methods throw it to the caller. No unit of
  work has been launched and nothing has been appended: the file system left is the
  initial one without the output file.
\<close>

theorem malformed_header_aborts:
  assumes csv: "files fs (inputFilePath p) = Some csv"
    and ne: "inputFilePath p \<noteq> outputFilePath p"
    and first: "readline_lines csv = h # rest"
    and lacks: "''name'' \<notin> set (split_on (CHR '','') h) \<or>
                ''email'' \<notin> set (split_on (CHR '','') h) \<or>
                ''age'' \<notin> set (split_on (CHR '','') h)"
  shows "processHeaders p (Some h) = Inl MalformedHeader \<and>
         processUsersAsStream p fs =
           (Inl MalformedHeader, fs\<lparr>files := (files fs)(outputFilePath p := None)\<rparr>) \<and>
         processUsersAsStreamAndConcurrency_traced p fs =
           ((Inl MalformedHeader, fs\<lparr>files := (files fs)(outputFilePath p := None)\<rparr>), []) \<and>
         processUsersAsStreamAndConcurrency p fs =
           (Inl MalformedHeader, fs\<lparr>files := (files fs)(outputFilePath p := None)\<rparr>)"
proof -
  have hd: "processHeaders p (Some h) = Inl MalformedHeader"
    using lacks by (rule processHeaders_malformed)
  have del: "safeDelete (outputFilePath p) (writeFile (outputFilePath p) d fs) =
      fs\<lparr>files := (files fs)(outputFilePath p := None)\<rparr>" for d
    by (simp add: safeDelete_def unlink_def writeFile_def)
  have a: "processUsersAsStream p fs =
      (Inl MalformedHeader, fs\<lparr>files := (files fs)(outputFilePath p := None)\<rparr>)"
    using csv first hd
    by (simp add: processUsersAsStream_def getLines_def next_line_def catch_block_def del)
  have b: "processUsersAsStreamAndConcurrency_traced p fs =
      ((Inl MalformedHeader, fs\<lparr>files := (files fs)(outputFilePath p := None)\<rparr>), [])"
    using csv first hd
    by (simp add: processUsersAsStreamAndConcurrency_traced_def getLines_def next_line_def
        catch_block_def del)
  from hd a b show ?thesis
    by (simp add: processUsersAsStreamAndConcurrency_def)
qed

theorem malformed_header_aborts_witness:
  "files bad_header_fs (inputFilePath sample_parser) =
     Some ''Name,email,age\<newline>john doe,john@example.com,25'' \<and>
   inputFilePath sample_parser \<noteq> outputFilePath sample_parser \<and>
   readline_lines ''Name,email,age\<newline>john doe,john@example.com,25'' =
     [''Name,email,age'', ''john doe,john@example.com,25''] \<and>
   ''name'' \<notin> set (split_on (CHR '','') ''Name,email,age'') \<and>
   processUsersAsStreamAndConcurrency sample_parser bad_header_fs =
     (Inl MalformedHeader, bad_header_fs\<lparr>files := (files bad_header_fs)(''result.csv'' := None)\<rparr>)"
proof -
  have out: "outputFilePath sample_parser = ''result.csv''"
    by (simp add: sample_parser_def new_CsvParser_def)
  have h1: "files bad_header_fs (inputFilePath sample_parser) =
     Some ''Name,email,age\<newline>john doe,john@example.com,25''"
    by (simp add: bad_header_fs_def sample_parser_def new_CsvParser_def)
  have h2: "readline_lines ''Name,email,age\<newline>john doe,john@example.com,25'' =
     [''Name,email,age'', ''john doe,john@example.com,25'']"
    by code_simp
  have "split_on (CHR '','') ''Name,email,age'' = [''Name'', ''email'', ''age'']"
    by code_simp
  then have h3: "''name'' \<notin> set (split_on (CHR '','') ''Name,email,age'')"
    by simp
  from malformed_header_aborts[OF h1 sample_run(2) h2 disjI1[OF h3]] h1 h2 h3 sample_run(2)
  show ?thesis unfolding out by blast
qed


section \<open>The output file at the end of a run\<close>

text \<open>
  C8. When a streaming run returns its stats, the output file does not exist after the run
  if no line was accepted, and it exists if one was. Deleting a file that does not exist is
  not an error: \<open>unlink\<close> rejects with ENOENT, which \<open>safeDelete\<close> catches, and the file
  system is left as it was.
\<close>

theorem output_file_iff_processed:
  "(processUsersAsStreamAndConcurrency p fs = (Inr st, fs') \<longrightarrow>
      (processed st = 0 \<longrightarrow> files fs' (outputFilePath p) = None) \<and>
      (0 < processed st \<longrightarrow> files fs' (outputFilePath p) \<noteq> None)) \<and>
   (processUsersAsStream p fs = (Inr st, fs') \<longrightarrow>
      (processed st = 0 \<longrightarrow> files fs' (outputFilePath p) = None) \<and>
      (0 < processed st \<longrightarrow> files fs' (outputFilePath p) \<noteq> None)) \<and>
   (files fs path = None \<longrightarrow> unlink path fs = Inl ENOENT \<and> safeDelete path fs = fs)"
proof (intro conjI impI)
  let ?fs1 = "writeFile (outputFilePath p) ''name,email,age'' fs"
  have ex: "files ?fs1 (outputFilePath p) \<noteq> None"
    by (simp add: writeFile_files)
  {
    assume run: "processUsersAsStreamAndConcurrency p fs = (Inr st, fs')"
    then obtain p' rest evs fs2 where
      b: "run_batches batchSize p' rest (new_Stats, ?fs1) = (evs, st, fs2)"
      and fs': "fs' = (if processed st = 0 then safeDelete (outputFilePath p) fs2 else fs2)"
      by (rule processUsersAsStreamAndConcurrency_Inr)
    from b ex have "files fs2 (outputFilePath p) \<noteq> None"
      by (rule run_batches_keeps_file)
    with fs' show "processed st = 0 \<Longrightarrow> files fs' (outputFilePath p) = None"
      and "0 < processed st \<Longrightarrow> files fs' (outputFilePath p) \<noteq> None"
      by (simp_all add: safeDelete_files)
  }
  {
    assume run: "processUsersAsStream p fs = (Inr st, fs')"
    then obtain p' rest fs2 where
      b: "processLines p' rest (new_Stats, ?fs1) = (Inr (), st, fs2)"
      and fs': "fs' = (if processed st = 0 then safeDelete (outputFilePath p) fs2 else fs2)"
      by (rule processUsersAsStream_Inr)
    from b ex have "files fs2 (outputFilePath p) \<noteq> None"
      by (rule processLines_keeps_file)
    with fs' show "processed st = 0 \<Longrightarrow> files fs' (outputFilePath p) = None"
      and "0 < processed st \<Longrightarrow> files fs' (outputFilePath p) \<noteq> None"
      by (simp_all add: safeDelete_files)
  }
  {
    assume "files fs path = None"
    then show "unlink path fs = Inl ENOENT" and "safeDelete path fs = fs"
      by (simp_all add: safeDelete_def unlink_def)
  }
qed

lemma header_only_run:
  "processUsersAsStream sample_parser header_only_fs =
     (Inr new_Stats, header_only_fs\<lparr>files := (files header_only_fs)(''result.csv'' := None)\<rparr>)"
  "processUsersAsStreamAndConcurrency sample_parser header_only_fs =
     (Inr new_Stats, header_only_fs\<lparr>files := (files header_only_fs)(''result.csv'' := None)\<rparr>)"
proof -
  have out: "outputFilePath sample_parser = ''result.csv''"
    by (simp add: sample_parser_def new_CsvParser_def)
  have inp: "files header_only_fs (inputFilePath sample_parser) = Some ''name,email,age''"
    by (simp add: header_only_fs_def sample_parser_def new_CsvParser_def)
  have r: "readline_lines ''name,email,age'' = [''name,email,age'']"
    by code_simp
  have del: "safeDelete ''result.csv'' (writeFile ''result.csv'' d header_only_fs) =
      header_only_fs\<lparr>files := (files header_only_fs)(''result.csv'' := None)\<rparr>" for d
    by (simp add: safeDelete_def unlink_def writeFile_def)
  show "processUsersAsStream sample_parser header_only_fs =
     (Inr new_Stats, header_only_fs\<lparr>files := (files header_only_fs)(''result.csv'' := None)\<rparr>)"
    by (simp add: processUsersAsStream_run[OF inp r header_resolved] after_try_def out del
        new_Stats_def)
  show "processUsersAsStreamAndConcurrency sample_parser header_only_fs =
     (Inr new_Stats, header_only_fs\<lparr>files := (files header_only_fs)(''result.csv'' := None)\<rparr>)"
    by (simp add: processUsersAsStreamAndConcurrency_def
        processUsersAsStreamAndConcurrency_run[OF inp r header_resolved] run_batches_def
        after_try_def out del new_Stats_def)
qed

theorem output_file_iff_processed_witness:
  "fst (processUsersAsStreamAndConcurrency sample_parser sample_fs) =
     Inr \<lparr>processed = 1, skipped = 2\<rparr> \<and>
   files (snd (processUsersAsStreamAndConcurrency sample_parser sample_fs)) ''result.csv'' \<noteq> None \<and>
   fst (processUsersAsStream sample_parser sample_fs) = Inr \<lparr>processed = 1, skipped = 2\<rparr> \<and>
   files (snd (processUsersAsStream sample_parser sample_fs)) ''result.csv'' \<noteq> None \<and>
   fst (processUsersAsStreamAndConcurrency sample_parser header_only_fs) =
     Inr \<lparr>processed = 0, skipped = 0\<rparr> \<and>
   files (snd (processUsersAsStreamAndConcurrency sample_parser header_only_fs)) ''result.csv'' = None \<and>
   fst (processUsersAsStream sample_parser header_only_fs) = Inr \<lparr>processed = 0, skipped = 0\<rparr> \<and>
   files (snd (processUsersAsStream sample_parser header_only_fs)) ''result.csv'' = None \<and>
   files header_only_fs ''result.csv'' = None \<and>
   unlink ''result.csv'' header_only_fs = Inl ENOENT \<and>
   safeDelete ''result.csv'' header_only_fs = header_only_fs"
proof -
  let ?st = "\<lparr>processed = 1, skipped = 2\<rparr>"
  have out: "outputFilePath sample_parser = ''result.csv''"
    by (simp add: sample_parser_def new_CsvParser_def)
  have c: "processUsersAsStreamAndConcurrency sample_parser sample_fs =
      (Inr ?st, snd (processUsersAsStreamAndConcurrency sample_parser sample_fs))"
    using sample_run(7) by (metis prod.collapse)
  have b: "processUsersAsStream sample_parser sample_fs =
      (Inr ?st, snd (processUsersAsStream sample_parser sample_fs))"
    using sample_run(6) by (metis prod.collapse)
  have z: "new_Stats = \<lparr>processed = 0, skipped = 0\<rparr>"
    by (simp add: new_Stats_def)
  have none: "files header_only_fs ''result.csv'' = None"
    by (simp add: header_only_fs_def)
  from output_file_iff_processed[where p = sample_parser and fs = sample_fs and st = ?st
      and fs' = "snd (processUsersAsStreamAndConcurrency sample_parser sample_fs)"] c
  have k1: "files (snd (processUsersAsStreamAndConcurrency sample_parser sample_fs)) ''result.csv'' \<noteq> None"
    unfolding out by simp
  from output_file_iff_processed[where p = sample_parser and fs = sample_fs and st = ?st
      and fs' = "snd (processUsersAsStream sample_parser sample_fs)"] b
  have k2: "files (snd (processUsersAsStream sample_parser sample_fs)) ''result.csv'' \<noteq> None"
    unfolding out by simp
  from output_file_iff_processed[where p = sample_parser and fs = header_only_fs and st = new_Stats
      and fs' = "header_only_fs\<lparr>files := (files header_only_fs)(''result.csv'' := None)\<rparr>"]
    header_only_run
  have k3: "files (snd (processUsersAsStreamAndConcurrency sample_parser header_only_fs)) ''result.csv'' = None"
    and k4: "files (snd (processUsersAsStream sample_parser header_only_fs)) ''result.csv'' = None"
    unfolding out by (simp_all add: new_Stats_def)
  from output_file_iff_processed[where fs = header_only_fs and path = "''result.csv''"] none
  have k5: "unlink ''result.csv'' header_only_fs = Inl ENOENT"
    and k6: "safeDelete ''result.csv'' header_only_fs = header_only_fs"
    by simp_all
  from sample_run(6,7) header_only_run z k1 k2 k3 k4 k5 k6 none show ?thesis
    by simp
qed

section \<open>The fields of a line\<close>

lemma set_trim: "set (trim s) \<subseteq> set s"
  by (auto simp: trim_def dest!: set_dropWhileD)

lemma digit_not_ws: "is_digit c \<Longrightarrow> \<not> is_ws c"
  by (auto simp: is_digit_def is_ws_def)

lemma digit_not_sign: "is_digit c \<Longrightarrow> c \<noteq> CHR ''-'' \<and> c \<noteq> CHR ''+''"
  by (auto simp: is_digit_def)

lemma parseInt_no_digit:
  assumes "\<forall>c\<in>set s. \<not> is_digit c"
  shows "parseInt s = None"
proof -
  define t where "t = dropWhile is_ws s"
  define u where "u = (case t of [] \<Rightarrow> [] | c # r \<Rightarrow> if c = CHR ''-'' \<or> c = CHR ''+'' then r else t)"
  have "set t \<subseteq> set s"
    unfolding t_def by (auto dest: set_dropWhileD)
  moreover have "set u \<subseteq> set t"
    unfolding u_def by (cases t) auto
  ultimately have "\<forall>c\<in>set u. \<not> is_digit c"
    using assms by blast
  then have "takeWhile is_digit u = []"
    by (cases u) auto
  then show ?thesis
    unfolding parseInt_def t_def[symmetric] Let_def u_def[symmetric] by simp
qed

lemma parseInt_digit_prefix:
  assumes "ds \<noteq> []" and "\<forall>c\<in>set ds. is_digit c" and "rest = [] \<or> \<not> is_digit (hd rest)"
  shows "parseInt (ds @ rest) = Some (int (digits_val ds))"
proof -
  from assms(1) obtain d ds' where ds: "ds = d # ds'" by (cases ds) auto
  with assms(2) have d: "is_digit d" by simp
  then have t: "dropWhile is_ws (ds @ rest) = ds @ rest"
    by (simp add: ds digit_not_ws)
  have "takeWhile is_digit rest = []"
    using assms(3) by (cases rest) auto
  with assms(2) have tw: "takeWhile is_digit (ds @ rest) = ds"
    by (simp add: takeWhile_append2)
  from d have sign: "d \<noteq> CHR ''-''" "d \<noteq> CHR ''+''"
    by (simp_all add: digit_not_sign)
  have "parseInt (ds @ rest) =
      (let u = ds @ rest; xs = takeWhile is_digit u
       in if xs = [] then None else Some (int (digits_val xs)))"
    unfolding parseInt_def t using sign by (simp add: ds Let_def)
  with tw assms(1) show ?thesis by (simp add: Let_def)
qed

lemma processUser_NaN: "processUser n e None = None"
  by (simp add: processUser_def)

lemma processUser_negative: "k < 0 \<Longrightarrow> processUser n e (Some k) = None"
  by (simp add: processUser_def)


lemma processUser_valid:
  "str_includes e (CHR ''@'') \<Longrightarrow>
   processUser n e (Some (int k)) = Some (join '','' [toUpperCase n, e, string_of_nat k])"
  by (simp add: processUser_def number_toString_def)

lemma resolved_parser_fields:
  "nameIndex resolved_parser = 0" "emailIndex resolved_parser = 1" "ageIndex resolved_parser = 2"
  "outputFilePath resolved_parser = ''result.csv''"
  by (simp_all add: resolved_parser_def sample_parser_def new_CsvParser_def)

text \<open>
  C5. On a non-blank line whose three fields are present and not empty, the age is read
  from the trimmed field by its leading digits. An age field with no digit at all (such as
  \<open>abc\<close>) parses to \<open>NaN\<close>, and \<open>NaN\<close> makes the line skipped; an age that parses to a
  negative integer makes the line skipped; an age field that starts with digits followed
  by a character that is not a digit (such as \<open>25extra\<close>) parses to the value of the
  digits, and the line is accepted with that age when the email holds an \<open>@\<close> and the
  append is written (the line written is given for an ASCII name and an age below
  \<open>2^53\<close>, where the model of \<open>toUpperCase\<close> and of the printing of numbers is exact).
\<close>

theorem age_leading_numeric_prefix:
  assumes nb: "trim line \<noteq> []"
    and n: "at (split_on (CHR '','') line) (nameIndex p) = Some n" "n \<noteq> []"
    and e: "at (split_on (CHR '','') line) (emailIndex p) = Some e" "e \<noteq> []"
    and a: "at (split_on (CHR '','') line) (ageIndex p) = Some a" "a \<noteq> []"
  shows "((\<forall>c\<in>set a. \<not> is_digit c) \<longrightarrow> parseInt (trim a) = None) \<and>
         (parseInt (trim a) = None \<longrightarrow>
            processUsersLine p line (st, fs) = (Inr (), st\<lparr>skipped := skipped st + 1\<rparr>, fs)) \<and>
         (\<forall>k. parseInt (trim a) = Some k \<and> k < 0 \<longrightarrow>
            processUsersLine p line (st, fs) = (Inr (), st\<lparr>skipped := skipped st + 1\<rparr>, fs)) \<and>
         (\<forall>ds rest. trim a = ds @ rest \<and> ds \<noteq> [] \<and> (\<forall>c\<in>set ds. is_digit c) \<and>
              (rest = [] \<or> \<not> is_digit (hd rest)) \<and> digits_val ds < 2 ^ 53 \<and> ascii n \<and>
              str_includes (trim e) (CHR ''@'') \<and> writable fs \<longrightarrow>
            parseInt (trim a) = Some (int (digits_val ds)) \<and>
            processUsersLine p line (st, fs) =
              (Inr (), st\<lparr>processed := processed st + 1\<rparr>,
               append_data (outputFilePath p)
                 (EOL # join '','' [toUpperCase (trim n), trim e, string_of_nat (digits_val ds)])
                 (fs\<lparr>faults := tl (faults fs)\<rparr>))) \<and>
         parseInt ''abc'' = None \<and> parseInt ''25extra'' = Some 25"
proof -
  note line = processUsersLine_fields[OF nb n e a, of st fs]
  have 1: "parseInt (trim a) = None" if "\<forall>c\<in>set a. \<not> is_digit c"
    using that set_trim[of a] by (intro parseInt_no_digit) blast
  have 2: "processUsersLine p line (st, fs) = (Inr (), st\<lparr>skipped := skipped st + 1\<rparr>, fs)"
    if "parseInt (trim a) = None"
    using that by (simp add: line processUser_NaN)
  have 3: "processUsersLine p line (st, fs) = (Inr (), st\<lparr>skipped := skipped st + 1\<rparr>, fs)"
    if "parseInt (trim a) = Some k \<and> k < 0" for k
    using that by (simp add: line processUser_negative)
  have 4: "parseInt (trim a) = Some (int (digits_val ds)) \<and>
      processUsersLine p line (st, fs) =
        (Inr (), st\<lparr>processed := processed st + 1\<rparr>,
         append_data (outputFilePath p)
           (EOL # join '','' [toUpperCase (trim n), trim e, string_of_nat (digits_val ds)])
           (fs\<lparr>faults := tl (faults fs)\<rparr>))"
    if h: "trim a = ds @ rest \<and> ds \<noteq> [] \<and> (\<forall>c\<in>set ds. is_digit c) \<and>
        (rest = [] \<or> \<not> is_digit (hd rest)) \<and> digits_val ds < 2 ^ 53 \<and> ascii n \<and>
        str_includes (trim e) (CHR ''@'') \<and> writable fs"
    for ds rest
  proof -
    from h have pi: "parseInt (trim a) = Some (int (digits_val ds))"
      by (simp add: parseInt_digit_prefix)
    from h have "processUser (trim n) (trim e) (Some (int (digits_val ds))) =
        Some (join '','' [toUpperCase (trim n), trim e, string_of_nat (digits_val ds)])"
      by (simp add: processUser_valid)
    with pi h show ?thesis
      by (simp add: line appendFile_writable del: join.simps)
  qed
  have 5: "parseInt ''abc'' = None" by code_simp
  have 6: "parseInt ''25extra'' = Some 25" by code_simp
  from 1 2 3 4 5 6 show ?thesis by blast
qed

theorem age_leading_numeric_prefix_witness:
  "trim ''bob,bob@example.com,abc'' \<noteq> [] \<and>
   at (split_on (CHR '','') ''bob,bob@example.com,abc'') (ageIndex resolved_parser) = Some ''abc'' \<and>
   \<not> is_digit (CHR ''a'') \<and> \<not> is_digit (CHR ''b'') \<and> \<not> is_digit (CHR ''c'') \<and>
   processUsersLine resolved_parser ''bob,bob@example.com,abc'' (new_Stats, sample_fs) =
     (Inr (), new_Stats\<lparr>skipped := skipped new_Stats + 1\<rparr>, sample_fs) \<and>
   at (split_on (CHR '','') ''bob,bob@example.com,-5'') (ageIndex resolved_parser) = Some ''-5'' \<and>
   parseInt (trim ''-5'') = Some (- 5) \<and>
   processUsersLine resolved_parser ''bob,bob@example.com,-5'' (new_Stats, sample_fs) =
     (Inr (), new_Stats\<lparr>skipped := skipped new_Stats + 1\<rparr>, sample_fs) \<and>
   at (split_on (CHR '','') ''bob,bob@example.com,25extra'') (ageIndex resolved_parser) = Some ''25extra'' \<and>
   trim ''25extra'' = ''25'' @ ''extra'' \<and> digits_val ''25'' < 2 ^ 53 \<and> ascii ''bob'' \<and>
   writable sample_fs \<and>
   processUsersLine resolved_parser ''bob,bob@example.com,25extra'' (new_Stats, sample_fs) =
     (Inr (), new_Stats\<lparr>processed := processed new_Stats + 1\<rparr>,
      append_data ''result.csv'' ''\<newline>BOB,bob@example.com,25'' sample_fs)"
proof -
  note ix = resolved_parser_fields
  have s1: "split_on (CHR '','') ''bob,bob@example.com,abc'' = [''bob'', ''bob@example.com'', ''abc'']"
    by code_simp
  have s2: "split_on (CHR '','') ''bob,bob@example.com,-5'' = [''bob'', ''bob@example.com'', ''-5'']"
    by code_simp
  have s3: "split_on (CHR '','') ''bob,bob@example.com,25extra'' = [''bob'', ''bob@example.com'', ''25extra'']"
    by code_simp
  have t1: "trim ''bob,bob@example.com,abc'' \<noteq> []" by code_simp
  have t2: "trim ''bob,bob@example.com,-5'' \<noteq> []" by code_simp
  have t3: "trim ''bob,bob@example.com,25extra'' \<noteq> []" by code_simp
  have nd: "\<forall>c\<in>set ''abc''. \<not> is_digit c" by (simp add: is_digit_def)
  have neg: "parseInt (trim ''-5'') = Some (- 5)" by code_simp
  have tr: "trim ''25extra'' = ''25'' @ ''extra''" by code_simp
  have dg: "''25'' \<noteq> [] \<and> (\<forall>c\<in>set ''25''. is_digit c) \<and> (''extra'' = [] \<or> \<not> is_digit (hd ''extra''))"
    by (simp add: is_digit_def)
  have em: "str_includes (trim ''bob@example.com'') (CHR ''@'')" by code_simp
  have "digits_val ''25'' = 25" by code_simp
  then have small: "digits_val ''25'' < 2 ^ 53" by simp
  have asc: "ascii ''bob''" by code_simp
  have out: "EOL # join '','' [toUpperCase (trim ''bob''), trim ''bob@example.com'', string_of_nat (digits_val ''25'')] =
      ''\<newline>BOB,bob@example.com,25''" by code_simp
  have fs: "sample_fs\<lparr>faults := tl (faults sample_fs)\<rparr> = sample_fs"
    by (simp add: sample_fs_def)
  have f1: "at (split_on (CHR '','') ''bob,bob@example.com,abc'') (ageIndex resolved_parser) = Some ''abc''"
    and f2: "at (split_on (CHR '','') ''bob,bob@example.com,-5'') (ageIndex resolved_parser) = Some ''-5''"
    and f3: "at (split_on (CHR '','') ''bob,bob@example.com,25extra'') (ageIndex resolved_parser) = Some ''25extra''"
    by (simp_all add: ix s1 s2 s3 at_def)
  have w1: "processUsersLine resolved_parser ''bob,bob@example.com,abc'' (new_Stats, sample_fs) =
     (Inr (), new_Stats\<lparr>skipped := skipped new_Stats + 1\<rparr>, sample_fs)"
    using age_leading_numeric_prefix[where p = resolved_parser and line = "''bob,bob@example.com,abc''"
        and n = "''bob''" and e = "''bob@example.com''" and a = "''abc''" and st = new_Stats and fs = sample_fs]
      t1 nd
    by (simp add: ix s1 at_def)
  have w2: "processUsersLine resolved_parser ''bob,bob@example.com,-5'' (new_Stats, sample_fs) =
     (Inr (), new_Stats\<lparr>skipped := skipped new_Stats + 1\<rparr>, sample_fs)"
    using age_leading_numeric_prefix[where p = resolved_parser and line = "''bob,bob@example.com,-5''"
        and n = "''bob''" and e = "''bob@example.com''" and a = "''-5''" and st = new_Stats and fs = sample_fs]
      t2 neg
    by (simp add: ix s2 at_def)
  have p3: "at (split_on (CHR '','') ''bob,bob@example.com,25extra'') (nameIndex resolved_parser) = Some ''bob''"
    "''bob'' \<noteq> []"
    "at (split_on (CHR '','') ''bob,bob@example.com,25extra'') (emailIndex resolved_parser) = Some ''bob@example.com''"
    "''bob@example.com'' \<noteq> []"
    by (simp_all add: ix s3 at_def)
  have a3: "''25extra'' \<noteq> []" by simp
  from age_leading_numeric_prefix[OF t3 p3 f3 a3, of new_Stats sample_fs]
  have "trim ''25extra'' = ''25'' @ ''extra'' \<and> ''25'' \<noteq> [] \<and> (\<forall>c\<in>set ''25''. is_digit c) \<and>
          (''extra'' = [] \<or> \<not> is_digit (hd ''extra'')) \<and> digits_val ''25'' < 2 ^ 53 \<and>
          ascii ''bob'' \<and> str_includes (trim ''bob@example.com'') (CHR ''@'') \<and> writable sample_fs \<longrightarrow>
     processUsersLine resolved_parser ''bob,bob@example.com,25extra'' (new_Stats, sample_fs) =
     (Inr (), new_Stats\<lparr>processed := processed new_Stats + 1\<rparr>,
      append_data (outputFilePath resolved_parser)
        (EOL # join '','' [toUpperCase (trim ''bob''), trim ''bob@example.com'', string_of_nat (digits_val ''25'')])
        (sample_fs\<lparr>faults := tl (faults sample_fs)\<rparr>))"
    by blast
  with tr dg em sample_run(4) small asc
  have "processUsersLine resolved_parser ''bob,bob@example.com,25extra'' (new_Stats, sample_fs) =
     (Inr (), new_Stats\<lparr>processed := processed new_Stats + 1\<rparr>,
      append_data (outputFilePath resolved_parser)
        (EOL # join '','' [toUpperCase (trim ''bob''), trim ''bob@example.com'', string_of_nat (digits_val ''25'')])
        (sample_fs\<lparr>faults := tl (faults sample_fs)\<rparr>))"
    by blast
  then have w3: "processUsersLine resolved_parser ''bob,bob@example.com,25extra'' (new_Stats, sample_fs) =
     (Inr (), new_Stats\<lparr>processed := processed new_Stats + 1\<rparr>,
      append_data ''result.csv'' ''\<newline>BOB,bob@example.com,25'' sample_fs)"
    by (simp only: out fs ix)
  have nd': "\<not> is_digit (CHR ''a'') \<and> \<not> is_digit (CHR ''b'') \<and> \<not> is_digit (CHR ''c'')"
    by (simp add: is_digit_def)
  from t1 f1 nd' w1 f2 neg w2 f3 tr small asc sample_run(4) w3 show ?thesis by blast
qed




section \<open>Where the streaming methods miss what their siblings do\<close>

lemma sample_output_path: "outputFilePath sample_parser = ''result.csv''"
  by (simp add: sample_parser_def new_CsvParser_def)

lemma line_mary:
  "processUsersLine (p\<lparr>nameIndex := 0, emailIndex := 1, ageIndex := 2\<rparr>)
     ''mary major,mary@example.com,28'' (st, fs) =
   (case appendFile (outputFilePath p) ''\<newline>MARY MAJOR,mary@example.com,28'' fs of
      (Inl err, fs') \<Rightarrow> (Inl err, st, fs')
    | (Inr u, fs') \<Rightarrow> (Inr (), st\<lparr>processed := processed st + 1\<rparr>, fs'))"
proof -
  have a: "split_on (CHR '','') ''mary major,mary@example.com,28'' =
      [''mary major'', ''mary@example.com'', ''28'']" by code_simp
  have b: "trim ''mary major,mary@example.com,28'' \<noteq> []" by code_simp
  have c: "processUser (trim ''mary major'') (trim ''mary@example.com'') (parseInt (trim ''28'')) =
      Some ''MARY MAJOR,mary@example.com,28''" by code_simp
  show ?thesis
    by (subst processUsersLine_fields[where n="''mary major''" and e="''mary@example.com''" and a="''28''"])
       (simp_all add: a b c at_def EOL_def)
qed

text \<open>
  The run on which the concurrent method parts from its sibling: two valid lines, the sink
  taking the first append and rejecting the second. The second line is the last of the
  input, so the batch is awaited before its append is rejected.
\<close>

lemma failing_sink_run:
  "processUsersAsStream sample_parser failing_sink_fs =
     (Inl EIO,
      safeDelete ''result.csv''
        \<lparr>files = [''input.csv'' \<mapsto>
            ''name,email,age\<newline>john doe,john@example.com,25\<newline>mary major,mary@example.com,28'',
            ''result.csv'' \<mapsto> ''name,email,age\<newline>JOHN DOE,john@example.com,25''],
         faults = []\<rparr>)"
  "processUsersAsStreamAndConcurrency sample_parser failing_sink_fs =
     (Inr \<lparr>processed = 1, skipped = 0\<rparr>,
      \<lparr>files = [''input.csv'' \<mapsto>
          ''name,email,age\<newline>john doe,john@example.com,25\<newline>mary major,mary@example.com,28'',
          ''result.csv'' \<mapsto> ''name,email,age\<newline>JOHN DOE,john@example.com,25''],
       faults = []\<rparr>)"
proof -
  let ?csv = "''name,email,age\<newline>john doe,john@example.com,25\<newline>mary major,mary@example.com,28''"
  let ?ls = "[''john doe,john@example.com,25'', ''mary major,mary@example.com,28'']"
  let ?p' = "sample_parser\<lparr>nameIndex := 0, emailIndex := 1, ageIndex := 2\<rparr>"
  let ?fs1 = "writeFile ''result.csv'' ''name,email,age'' failing_sink_fs"
  let ?fs2 = "\<lparr>files = [''input.csv'' \<mapsto> ?csv,
      ''result.csv'' \<mapsto> ''name,email,age\<newline>JOHN DOE,john@example.com,25''], faults = []\<rparr>"
  have inp: "files failing_sink_fs (inputFilePath sample_parser) = Some ?csv"
    by (simp add: failing_sink_fs_def sample_parser_def new_CsvParser_def)
  have r: "readline_lines ?csv = ''name,email,age'' # ?ls" by code_simp
  have w: "writable ?fs1"
    by (simp add: writable_def writeFile_def failing_sink_fs_def)
  have j: "processUsersLine ?p' ''john doe,john@example.com,25'' (new_Stats, ?fs1) =
      (Inr (), \<lparr>processed = 1, skipped = 0\<rparr>,
       \<lparr>files = [''input.csv'' \<mapsto> ?csv,
          ''result.csv'' \<mapsto> ''name,email,age\<newline>JOHN DOE,john@example.com,25''], faults = [True]\<rparr>)"
    unfolding line_john[OF w]
    by (simp add: sample_output_path new_Stats_def append_data_def writeFile_def
        failing_sink_fs_def EOL_def)
  have m: "processUsersLine ?p' ''mary major,mary@example.com,28''
      (\<lparr>processed = 1, skipped = 0\<rparr>,
       \<lparr>files = [''input.csv'' \<mapsto> ?csv,
          ''result.csv'' \<mapsto> ''name,email,age\<newline>JOHN DOE,john@example.com,25''], faults = [True]\<rparr>) =
      (Inl EIO, \<lparr>processed = 1, skipped = 0\<rparr>, ?fs2)"
    by (simp add: line_mary appendFile_def)
  have seq: "processLines ?p' ?ls (new_Stats, ?fs1) = (Inl EIO, \<lparr>processed = 1, skipped = 0\<rparr>, ?fs2)"
    by (simp only: processLines.simps j m prod.case sum.case)
  have conc: "run_batches batchSize ?p' ?ls (new_Stats, ?fs1) =
      ([Launch, Launch, AllSettled 2], \<lparr>processed = 1, skipped = 0\<rparr>, ?fs2)"
    unfolding run_batches_def batchLoop.simps j m prod.case Let_def
    by (simp add: batchSize_def)
  show "processUsersAsStream sample_parser failing_sink_fs =
      (Inl EIO, safeDelete ''result.csv'' ?fs2)"
    by (simp only: processUsersAsStream_run[OF inp r header_resolved] sample_output_path seq
        catch_block_def prod.case sum.case)
  show "processUsersAsStreamAndConcurrency sample_parser failing_sink_fs =
      (Inr \<lparr>processed = 1, skipped = 0\<rparr>, ?fs2)"
    by (simp only: processUsersAsStreamAndConcurrency_def
        processUsersAsStreamAndConcurrency_run[OF inp r header_resolved] sample_output_path conc
        prod.case fst_conv)
       (simp add: after_try_def)
qed

text \<open>
  C1. The sink takes the first append and rejects the second. The sequential streaming
  method throws the error and deletes the output file. The concurrent method returns
  stats as if the run had succeeded, the second line counted nowhere, and keeps the output
  file: \<open>Promise.allSettled\<close> has dropped the rejection of the unit.
\<close>

theorem rejected_append_is_dropped:
  "fst (processUsersAsStreamAndConcurrency sample_parser failing_sink_fs) =
     Inr \<lparr>processed = 1, skipped = 0\<rparr> \<and>
   files (snd (processUsersAsStreamAndConcurrency sample_parser failing_sink_fs)) ''result.csv'' =
     Some ''name,email,age\<newline>JOHN DOE,john@example.com,25'' \<and>
   fst (processUsersAsStream sample_parser failing_sink_fs) = Inl EIO \<and>
   files (snd (processUsersAsStream sample_parser failing_sink_fs)) ''result.csv'' = None"
  by (simp add: failing_sink_run safeDelete_files)

text \<open>
  C4. On that run the claim fails, by the defect of C1: the input has two non-blank data
  lines after the header and the concurrent method returns stats, yet their \<open>total\<close> is 1.
  The line whose append was rejected has incremented neither counter.
\<close>

theorem total_misses_rejected_line:
  "files failing_sink_fs ''input.csv'' =
     Some ''name,email,age\<newline>john doe,john@example.com,25\<newline>mary major,mary@example.com,28'' \<and>
   count_nonblank
     (tl (readline_lines
       ''name,email,age\<newline>john doe,john@example.com,25\<newline>mary major,mary@example.com,28'')) = 2 \<and>
   fst (processUsersAsStreamAndConcurrency sample_parser failing_sink_fs) =
     Inr \<lparr>processed = 1, skipped = 0\<rparr> \<and>
   total \<lparr>processed = 1, skipped = 0\<rparr> = 1"
proof -
  have inp: "files failing_sink_fs ''input.csv'' =
     Some ''name,email,age\<newline>john doe,john@example.com,25\<newline>mary major,mary@example.com,28''"
    by (simp add: failing_sink_fs_def)
  have n: "count_nonblank
     (tl (readline_lines
       ''name,email,age\<newline>john doe,john@example.com,25\<newline>mary major,mary@example.com,28'')) = 2"
    by code_simp
  have t: "total \<lparr>processed = 1, skipped = 0\<rparr> = 1"
    by (simp add: total_def)
  from inp n t show ?thesis
    by (simp only: failing_sink_run(2) fst_conv simp_thms)
qed

text \<open>
  C3. On an empty input file \<open>readline\<close> yields no line, so the first \<open>next()\<close> has the
  value \<open>undefined\<close> and \<open>processHeaders\<close> throws a TypeError: both streaming methods
  throw it (the output file is deleted). \<open>processUsers\<close> and the static method return
  the stats 0 and 0.
\<close>

theorem empty_input_throws_in_streaming_methods:
  "processUsersAsStreamAndConcurrency sample_parser empty_input_fs = (Inl TypeError, empty_input_fs) \<and>
   processUsersAsStream sample_parser empty_input_fs = (Inl TypeError, empty_input_fs) \<and>
   processUsers sample_parser empty_input_fs = (Inr \<lparr>processed = 0, skipped = 0\<rparr>, empty_input_fs) \<and>
   static_processUsers (\<lambda>d. d) (\<lambda>d f. f) ''input.csv'' (Some ''result.csv'') empty_input_fs =
     (Inr \<lparr>processed = 0, skipped = 0\<rparr>, empty_input_fs) \<and>
   files empty_input_fs ''result.csv'' = None"
proof -
  have inp: "files empty_input_fs ''input.csv'' = Some []"
    by (simp add: empty_input_fs_def)
  have none: "files empty_input_fs ''result.csv'' = None"
    by (simp add: empty_input_fs_def)
  have r: "readline_lines [] = []" by code_simp
  have t: "trim [] = []" by code_simp
  have del: "safeDelete ''result.csv'' (writeFile ''result.csv'' d empty_input_fs) = empty_input_fs" for d
    by (simp add: safeDelete_def unlink_def writeFile_def empty_input_fs_def)
  have ip: "inputFilePath sample_parser = ''input.csv''"
    by (simp add: sample_parser_def new_CsvParser_def)
  have a: "processUsersAsStreamAndConcurrency sample_parser empty_input_fs = (Inl TypeError, empty_input_fs)"
    by (simp add: processUsersAsStreamAndConcurrency_def processUsersAsStreamAndConcurrency_traced_def
        getLines_def ip inp r next_line_def processHeaders_undefined catch_block_def
        sample_output_path del)
  have b: "processUsersAsStream sample_parser empty_input_fs = (Inl TypeError, empty_input_fs)"
    by (simp add: processUsersAsStream_def getLines_def ip inp r next_line_def
        processHeaders_undefined catch_block_def sample_output_path del)
  have c: "processUsers sample_parser empty_input_fs = (Inr \<lparr>processed = 0, skipped = 0\<rparr>, empty_input_fs)"
    by (simp add: processUsers_def readFile_def ip inp t new_Stats_def)
  have d: "static_processUsers (\<lambda>d. d) (\<lambda>d f. f) ''input.csv'' (Some ''result.csv'') empty_input_fs =
     (Inr \<lparr>processed = 0, skipped = 0\<rparr>, empty_input_fs)"
    by (simp add: static_processUsers_def falsy_def writeFile_files inp r new_Stats_def del)
  from a b c d none show ?thesis by simp
qed

section \<open>The batches\<close>

lemma pending_from_append:
  "pending_from n (es @ es') = pending_from (pending_from n es) es'"
  by (induction n es rule: pending_from.induct) simp_all

lemma pending_snoc_Launch: "pending (es @ [Launch]) = pending es + 1"
  by (simp add: pending_def pending_from_append)

lemma pending_snoc_AllSettled: "pending (es @ [AllSettled n]) = pending es - n"
  by (simp add: pending_def pending_from_append)

lemma bounded_trace_Nil: "bounded_trace B []"
  by (simp add: bounded_trace_def pending_def)

lemma bounded_trace_snoc:
  assumes tr: "bounded_trace B es"
    and new: "pending (es @ [e]) \<le> B"
    and ev: "e = Launch \<longrightarrow> pending es < B"
            "\<forall>n. e = AllSettled n \<longrightarrow> n = pending es \<and> 0 < n"
  shows "bounded_trace B (es @ [e])"
proof -
  have a: "pending (take k (es @ [e])) \<le> B" if "k \<le> length (es @ [e])" for k
  proof -
    from that consider "k \<le> length es" | "k = Suc (length es)" by fastforce
    then show ?thesis
    proof cases
      case 1
      with tr show ?thesis by (simp add: bounded_trace_def)
    next
      case 2
      with new show ?thesis by simp
    qed
  qed
  have b: "pending (take k (es @ [e])) < B"
    if "k < length (es @ [e])" "(es @ [e]) ! k = Launch" for k
  proof -
    from that(1) consider "k < length es" | "k = length es" by fastforce
    then show ?thesis
    proof cases
      case 1
      with tr that(2) show ?thesis by (simp add: bounded_trace_def nth_append)
    next
      case 2
      with that(2) ev(1) show ?thesis by simp
    qed
  qed
  have c: "n = pending (take k (es @ [e])) \<and> 0 < n"
    if "k < length (es @ [e])" "(es @ [e]) ! k = AllSettled n" for k n
  proof -
    from that(1) consider "k < length es" | "k = length es" by fastforce
    then show ?thesis
    proof cases
      case 1
      with tr that(2) show ?thesis by (simp add: bounded_trace_def nth_append)
    next
      case 2
      with that(2) ev(2) show ?thesis by simp
    qed
  qed
  from a b c show ?thesis
    unfolding bounded_trace_def by blast
qed

lemma batchLoop_trace:
  assumes "0 < B" and "bounded_trace B evs" and "pending evs = length ps" and "length ps < B"
    and "batchLoop B p lines (ps, evs, sf) = (ps', evs', sf')"
  shows "bounded_trace B evs' \<and> pending evs' = length ps' \<and> length ps' < B"
  using assms
proof (induction lines arbitrary: ps evs sf)
  case Nil
  then show ?case by simp
next
  case (Cons l ls)
  obtain r sf1 where step: "processUsersLine p l sf = (r, sf1)"
    by (cases "processUsersLine p l sf") auto
  let ?evs1 = "evs @ [Launch]"
  have p1: "pending ?evs1 = length ps + 1"
    using Cons.prems(3) by (simp add: pending_snoc_Launch)
  have t1: "bounded_trace B ?evs1"
    using Cons.prems(2) by (rule bounded_trace_snoc) (use Cons.prems(3,4) p1 in simp_all)
  show ?case
  proof (cases "B \<le> length (ps @ [r])")
    case True
    let ?evs2 = "?evs1 @ [AllSettled (length (ps @ [r]))]"
    have p2: "pending ?evs2 = 0"
      using pending_snoc_AllSettled[of ?evs1 "length (ps @ [r])"] p1 by simp
    have t2: "bounded_trace B ?evs2"
      using t1 by (rule bounded_trace_snoc) (use p1 p2 in simp_all)
    from Cons.prems(5) step True
    have "batchLoop B p ls ([], ?evs2, sf1) = (ps', evs', sf')"
      by (simp add: Let_def)
    with Cons.IH[of ?evs2 "[]" sf1] Cons.prems(1) t2 p2 show ?thesis by simp
  next
    case False
    with Cons.prems(5) step
    have "batchLoop B p ls (ps @ [r], ?evs1, sf1) = (ps', evs', sf')"
      by (simp add: Let_def)
    with Cons.IH[of ?evs1 "ps @ [r]" sf1] Cons.prems(1) t1 p1 False show ?thesis by simp
  qed
qed

lemma run_batches_trace:
  assumes "0 < B" and "run_batches B p lines sf = (evs, sf')"
  shows "bounded_trace B evs \<and> pending evs = 0"
proof -
  obtain ps es sf1 where loop: "batchLoop B p lines ([], [], sf) = (ps, es, sf1)"
    by (cases "batchLoop B p lines ([], [], sf)") auto
  from batchLoop_trace[OF assms(1) bounded_trace_Nil _ _ loop] assms(1)
  have inv: "bounded_trace B es" "pending es = length ps" "length ps < B"
    by (simp_all add: pending_def)
  show ?thesis
  proof (cases "length ps > 0")
    case True
    with assms(2) loop have evs: "evs = es @ [AllSettled (length ps)]"
      by (simp add: run_batches_def)
    have "pending evs = 0"
      by (simp add: evs pending_snoc_AllSettled inv(2))
    moreover have "bounded_trace B evs"
      unfolding evs using inv(1)
      by (rule bounded_trace_snoc) (use inv True in \<open>simp_all add: pending_snoc_AllSettled\<close>)
    ultimately show ?thesis by simp
  next
    case False
    with assms(2) loop inv show ?thesis
      by (simp add: run_batches_def)
  qed
qed

lemma traced_cases:
  "processUsersAsStreamAndConcurrency_traced p fs = (res, evs) \<Longrightarrow>
   evs = [] \<or> (\<exists>p' rest sf sf'. run_batches batchSize p' rest sf = (evs, sf'))"
  by (auto simp: processUsersAsStreamAndConcurrency_traced_def Let_def
      split: option.splits prod.splits sum.splits)

text \<open>
  C9. The batch capacity is 1000. In the trace of a run of the concurrent method, at
  every point at most 1000 units are pending (launched and not yet awaited); a unit is
  launched only while fewer than 1000 are pending, so that once 1000 are pending the next
  thing the method does is to await them; every \<open>Promise.allSettled\<close> awaits all the units
  pending at that point; and when the method returns no unit is pending: the last, partial
  batch has been awaited too.
\<close>

theorem at_most_batchSize_pending:
  assumes "processUsersAsStreamAndConcurrency_traced p fs = (res, evs)"
  shows "batchSize = 1000 \<and>
         (\<forall>k\<le>length evs. pending (take k evs) \<le> batchSize) \<and>
         (\<forall>k<length evs. evs ! k = Launch \<longrightarrow> pending (take k evs) < batchSize) \<and>
         (\<forall>k<length evs. pending (take k evs) = batchSize \<longrightarrow> evs ! k = AllSettled batchSize) \<and>
         (\<forall>k<length evs. \<forall>n. evs ! k = AllSettled n \<longrightarrow>
            n = pending (take k evs) \<and> pending (take (Suc k) evs) = 0) \<and>
         pending evs = 0"
proof -
  have tr: "bounded_trace batchSize evs \<and> pending evs = 0"
  proof -
    from traced_cases[OF assms] show ?thesis
    proof
      assume "evs = []"
      then show ?thesis by (simp add: bounded_trace_Nil pending_def)
    next
      assume "\<exists>p' rest sf sf'. run_batches batchSize p' rest sf = (evs, sf')"
      then obtain p' rest sf sf' where "run_batches batchSize p' rest sf = (evs, sf')" by blast
      with run_batches_trace[of batchSize p' rest sf evs sf'] show ?thesis
        by (simp add: batchSize_def)
    qed
  qed
  then have a: "\<forall>k\<le>length evs. pending (take k evs) \<le> batchSize"
    and b: "\<forall>k<length evs. evs ! k = Launch \<longrightarrow> pending (take k evs) < batchSize"
    and c: "\<forall>k<length evs. \<forall>n. evs ! k = AllSettled n \<longrightarrow> n = pending (take k evs) \<and> 0 < n"
    by (simp_all add: bounded_trace_def)
  have d: "evs ! k = AllSettled batchSize" if "k < length evs" "pending (take k evs) = batchSize" for k
  proof (cases "evs ! k")
    case Launch
    with b that show ?thesis by auto
  next
    case (AllSettled n)
    with c that show ?thesis by auto
  qed
  have e: "n = pending (take k evs) \<and> pending (take (Suc k) evs) = 0"
    if "k < length evs" "evs ! k = AllSettled n" for k n
  proof -
    from c that have n: "n = pending (take k evs)" by blast
    from that(1) have "take (Suc k) evs = take k evs @ [evs ! k]"
      by (rule take_Suc_conv_app_nth)
    with that(2) n show ?thesis
      by (simp add: pending_snoc_AllSettled)
  qed
  from tr a b d e show ?thesis
    by (simp add: batchSize_def)
qed

text \<open>A run that fills a batch: the header and a thousand empty lines.\<close>

lemma readline_from_line:
  "\<forall>c\<in>set h. c \<noteq> CHR 0x0A \<and> c \<noteq> CHR 0x0D \<Longrightarrow>
   readline_from cur (h @ CHR 0x0A # rest) = (cur @ h) # readline_from [] rest"
  by (induction h arbitrary: cur) (simp_all add: readline_from.simps)

lemma readline_from_newlines: "readline_from [] (replicate n (CHR 0x0A)) = replicate n []"
  by (induction n) (simp_all add: readline_from.simps)

lemma batchLoop_append:
  "batchLoop B p (xs @ ys) s = batchLoop B p ys (batchLoop B p xs s)"
proof (induction xs arbitrary: s)
  case Nil
  then show ?case by simp
next
  case (Cons x xs)
  obtain ps evs sf where s: "s = (ps, evs, sf)" by (cases s) auto
  obtain r sf1 where step: "processUsersLine p x sf = (r, sf1)"
    by (cases "processUsersLine p x sf") auto
  show ?case
    by (simp add: s step Let_def Cons.IH)
qed

lemma batchLoop_blank_lines:
  "length ps + n < B \<Longrightarrow>
   batchLoop B p (replicate n []) (ps, evs, st, fs) =
     (ps @ replicate n (Inr ()), evs @ replicate n Launch, st, fs)"
proof (induction n arbitrary: ps evs)
  case 0
  then show ?case by simp
next
  case (Suc n)
  have blank: "processUsersLine p [] (st, fs) = (Inr (), st, fs)"
    by (rule processUsersLine_blank) (simp add: trim_Nil_iff)
  from Suc.prems have "length (ps @ [Inr ()]) + n < B" by simp
  from Suc.IH[OF this, of "evs @ [Launch]"] Suc.prems show ?case
    by (simp add: blank Let_def replicate_app_Cons_same)
qed

lemma run_batches_full_batch:
  "run_batches (Suc m) p (replicate (Suc m) []) (st, fs) =
     (replicate (Suc m) Launch @ [AllSettled (Suc m)], st, fs)"
proof -
  have blank: "processUsersLine p [] (st, fs) = (Inr (), st, fs)"
    by (rule processUsersLine_blank) (simp add: trim_Nil_iff)
  have "replicate (Suc m) ([]::string) = replicate m [] @ [[]]"
    by (simp add: replicate_append_same)
  then have "batchLoop (Suc m) p (replicate (Suc m) []) ([], [], st, fs) =
      batchLoop (Suc m) p [[]] (batchLoop (Suc m) p (replicate m []) ([], [], st, fs))"
    by (simp only: batchLoop_append)
  also have "batchLoop (Suc m) p (replicate m []) ([], [], st, fs) =
      (replicate m (Inr ()), replicate m Launch, st, fs)"
    using batchLoop_blank_lines[of "[]" m "Suc m" p "[]" st fs] by simp
  also have "batchLoop (Suc m) p [[]] (replicate m (Inr ()), replicate m Launch, st, fs) =
      ([], replicate (Suc m) Launch @ [AllSettled (Suc m)], st, fs)"
    by (simp add: blank Let_def replicate_append_same)
  finally show ?thesis
    by (simp add: run_batches_def)
qed

lemma pending_replicate_Launch: "pending_from n (replicate k Launch) = n + k"
  by (induction k arbitrary: n) simp_all

lemma full_batch_run:
  "processUsersAsStreamAndConcurrency_traced sample_parser full_batch_fs =
     ((Inr new_Stats, full_batch_fs), replicate 1000 Launch @ [AllSettled 1000])"
proof -
  let ?csv = "''name,email,age'' @ replicate 1001 (CHR 0x0A)"
  have inp: "files full_batch_fs (inputFilePath sample_parser) = Some ?csv"
    by (simp add: full_batch_fs_def sample_parser_def new_CsvParser_def)
  have e1: "replicate 1001 (CHR 0x0A) = CHR 0x0A # replicate 1000 (CHR 0x0A)"
    by (simp add: numeral_eq_Suc)
  have hl: "\<forall>c\<in>set ''name,email,age''. c \<noteq> CHR 0x0A \<and> c \<noteq> CHR 0x0D"
    by simp
  have "readline_lines ?csv =
      readline_from [] (''name,email,age'' @ CHR 0x0A # replicate 1000 (CHR 0x0A))"
    by (simp only: readline_lines_def e1)
  also have "\<dots> = ([] @ ''name,email,age'') # readline_from [] (replicate 1000 (CHR 0x0A))"
    using hl by (rule readline_from_line)
  also have "\<dots> = ''name,email,age'' # replicate 1000 []"
    by (simp only: readline_from_newlines append_Nil)
  finally have r: "readline_lines ?csv = ''name,email,age'' # replicate 1000 []" .
  have del: "safeDelete ''result.csv'' (writeFile ''result.csv'' d full_batch_fs) = full_batch_fs" for d
    by (simp add: safeDelete_def unlink_def writeFile_def full_batch_fs_def)
  have b: "run_batches batchSize (sample_parser\<lparr>nameIndex := 0, emailIndex := 1, ageIndex := 2\<rparr>)
      (replicate 1000 []) (new_Stats, writeFile ''result.csv'' ''name,email,age'' full_batch_fs) =
      (replicate 1000 Launch @ [AllSettled 1000], new_Stats,
       writeFile ''result.csv'' ''name,email,age'' full_batch_fs)"
    using run_batches_full_batch[of 999] by (simp add: batchSize_def)
  show ?thesis
    by (simp only: processUsersAsStreamAndConcurrency_run[OF inp r header_resolved]
        sample_output_path b prod.case)
       (simp add: after_try_def new_Stats_def del sample_output_path)
qed

theorem at_most_batchSize_pending_witness:
  "processUsersAsStreamAndConcurrency_traced sample_parser full_batch_fs =
     ((Inr new_Stats, full_batch_fs), replicate 1000 Launch @ [AllSettled 1000]) \<and>
   (1000::nat) < length (replicate 1000 Launch @ [AllSettled 1000]) \<and>
   pending (take 1000 (replicate 1000 Launch @ [AllSettled 1000])) = batchSize \<and>
   (replicate 1000 Launch @ [AllSettled 1000]) ! 1000 = AllSettled batchSize \<and>
   pending (take (Suc 1000) (replicate 1000 Launch @ [AllSettled 1000])) = 0 \<and>
   (replicate 1000 Launch @ [AllSettled 1000]) ! 999 = Launch \<and>
   pending (take 999 (replicate 1000 Launch @ [AllSettled 1000])) < batchSize \<and>
   pending (replicate 1000 Launch @ [AllSettled 1000]) = 0"
proof -
  let ?evs = "replicate 1000 Launch @ [AllSettled 1000]"
  note t = at_most_batchSize_pending[OF full_batch_run]
  have len: "(1000::nat) < length ?evs" "(999::nat) < length ?evs" by simp_all
  have full: "pending (take 1000 ?evs) = batchSize"
    by (simp add: pending_def pending_replicate_Launch batchSize_def)
  have l: "?evs ! 999 = Launch"
    by (simp add: nth_append)
  from t len(1) full have w1: "?evs ! 1000 = AllSettled batchSize" by blast
  with t len(1) have w2: "pending (take (Suc 1000) ?evs) = 0" by blast
  from t len(2) l have w3: "pending (take 999 ?evs) < batchSize" by blast
  from t have w4: "pending ?evs = 0" by blast
  from full_batch_run len(1) full l w1 w2 w3 w4 show ?thesis by blast
qed

section \<open>The default output path\<close>

text \<open>
  C10. A parser made without an output path writes to \<open>output.csv\<close> joined to the
  directory of the input file, and it is the very parser made with that path given: each
  of the three methods does on it what it does on the other. The static method of
  src/csv-parser.mjs takes its default the same way.
\<close>

theorem default_output_path:
  "outputFilePath (new_CsvParser dirname path_join input None) =
     path_join (dirname input) ''output.csv'' \<and>
   new_CsvParser dirname path_join input None =
     new_CsvParser dirname path_join input (Some (path_join (dirname input) ''output.csv'')) \<and>
   processUsers (new_CsvParser dirname path_join input None) fs =
     processUsers
       (new_CsvParser dirname path_join input (Some (path_join (dirname input) ''output.csv''))) fs \<and>
   processUsersAsStream (new_CsvParser dirname path_join input None) fs =
     processUsersAsStream
       (new_CsvParser dirname path_join input (Some (path_join (dirname input) ''output.csv''))) fs \<and>
   processUsersAsStreamAndConcurrency (new_CsvParser dirname path_join input None) fs =
     processUsersAsStreamAndConcurrency
       (new_CsvParser dirname path_join input (Some (path_join (dirname input) ''output.csv''))) fs \<and>
   static_processUsers dirname path_join input None fs =
     static_processUsers dirname path_join input (Some (path_join (dirname input) ''output.csv'')) fs"
proof -
  have same: "new_CsvParser dirname path_join input None =
     new_CsvParser dirname path_join input (Some (path_join (dirname input) ''output.csv''))"
    by (simp add: new_CsvParser_def)
  have out: "outputFilePath (new_CsvParser dirname path_join input None) =
     path_join (dirname input) ''output.csv''"
    by (simp add: new_CsvParser_def)
  have static: "static_processUsers dirname path_join input None fs =
     static_processUsers dirname path_join input (Some (path_join (dirname input) ''output.csv'')) fs"
    by (simp add: static_processUsers_def falsy_def)
  from same out static show ?thesis by simp
qed

theorem default_output_path_witness:
  "outputFilePath (new_CsvParser (\<lambda>f. ''data'') (\<lambda>d f. d @ ''/'' @ f) ''data/input.csv'' None) =
     ''data/output.csv'' \<and>
   processUsersAsStreamAndConcurrency
     (new_CsvParser (\<lambda>f. ''data'') (\<lambda>d f. d @ ''/'' @ f) ''data/input.csv'' None) sample_fs =
   processUsersAsStreamAndConcurrency
     (new_CsvParser (\<lambda>f. ''data'') (\<lambda>d f. d @ ''/'' @ f) ''data/input.csv'' (Some ''data/output.csv''))
     sample_fs"
proof -
  note t = default_output_path[of "\<lambda>f. ''data''" "\<lambda>d f. d @ ''/'' @ f" "''data/input.csv''" sample_fs]
  have e: "''data'' @ ''/'' @ ''output.csv'' = ''data/output.csv''"
    by simp
  from t show ?thesis
    unfolding e by blast
qed

section \<open>The whole-file method on the header and on the output file\<close>

text \<open>
  \<open>processUsers\<close> has a guard of its own: on a file that is blank as a whole it returns
  the empty stats before anything is written or deleted, so the header is not looked at and
  the output path is left as it was. Past the guard it does what the streaming methods do.
\<close>

lemma processUsers_blank_file:
  "files fs (inputFilePath p) = Some csv \<Longrightarrow> trim csv = [] \<Longrightarrow>
   processUsers p fs = (Inr new_Stats, fs)"
  by (simp add: processUsers_def readFile_def)

lemma processUsers_malformed_header:
  assumes "files fs (inputFilePath p) = Some csv" and "trim csv \<noteq> []"
    and "split_on EOL csv = h # rest"
    and "''name'' \<notin> set (split_on (CHR '','') h) \<or> ''email'' \<notin> set (split_on (CHR '','') h) \<or>
         ''age'' \<notin> set (split_on (CHR '','') h)"
  shows "processUsers p fs =
     (Inl MalformedHeader, fs\<lparr>files := (files fs)(outputFilePath p := None)\<rparr>)"
proof -
  have "processHeaders p (Some h) = Inl MalformedHeader"
    using assms(4) by (rule processHeaders_malformed)
  with assms(1-3) show ?thesis
    by (simp add: processUsers_def readFile_def next_line_def catch_block_def safeDelete_def
        unlink_def writeFile_def)
qed

lemma processUsers_output_file:
  assumes "processUsers p fs = (Inr st, fs')"
    and "files fs (inputFilePath p) = Some csv" and "trim csv \<noteq> []"
  shows "(processed st = 0 \<longrightarrow> files fs' (outputFilePath p) = None) \<and>
         (0 < processed st \<longrightarrow> files fs' (outputFilePath p) \<noteq> None)"
  using assms(1)
proof (cases rule: processUsers_Inr)
  case (1 csv')
  with assms(2,3) show ?thesis by simp
next
  case (2 csv' h rest p' fs2)
  have "files (writeFile (outputFilePath p) ''name,email,age'' fs) (outputFilePath p) \<noteq> None"
    by (simp add: writeFile_files)
  with 2(5) have "files fs2 (outputFilePath p) \<noteq> None"
    by (rule processLines_keeps_file)
  with 2(6) show ?thesis
    by (simp add: safeDelete_files)
qed

end
